theory Spec2Isabelle
  imports Complex_Main "HOL-Library.AList" "HOL-Library.Multiset" "HOL-Library.Log_Nat"
begin

section \<open>JavaScript values\<close>

text \<open>
  The program is TypeScript: nodes, runtime objects and inner values are plain JavaScript
  values that the code inspects reflectively (\<^verbatim>\<open>Object.values\<close>, \<^verbatim>\<open>isArray\<close>,
  \<^verbatim>\<open>instanceof Object\<close>, truthiness). The embedding keeps them as one datatype.
  An object is the ordered list of its own enumerable properties, as \<^verbatim>\<open>Object.values\<close>
  lists them. \<open>JSNumber x\<close> is a finite double other than \<open>-0\<close>, read as the rational
  \<open>x\<close> it denotes (\<open>isDouble\<close> below says which rationals are doubles);
  \<open>JSNegativeZero\<close>, \<open>JSInfinity\<close>, \<open>JSNegativeInfinity\<close> and \<open>JSNaN\<close> are the
  other values of the Number type. A string is the list of its characters, each a code
  unit below 256. A function value is identified by a name: its source text, or, for a
  closure that owns state, the name of the closure.
\<close>

datatype JSValue =
    JSUndefined
  | JSNull
  | JSBoolean bool
  | JSNumber rat
  | JSNaN
  | JSString string
  | JSFunction string
  | JSArray "JSValue list"
  | JSObject "(string \<times> JSValue) list"
  | JSNegativeZero
  | JSInfinity
  | JSNegativeInfinity

type_synonym Id = string
type_synonym Name = string

text \<open>JavaScript's ToBoolean.\<close>

fun truthy :: "JSValue \<Rightarrow> bool" where
  "truthy JSUndefined = False"
| "truthy JSNull = False"
| "truthy (JSBoolean b) = b"
| "truthy (JSNumber n) = (n \<noteq> 0)"
| "truthy JSNaN = False"
| "truthy (JSString s) = (s \<noteq> [])"
| "truthy (JSFunction f) = True"
| "truthy (JSArray vs) = True"
| "truthy (JSObject kvs) = True"
| "truthy JSNegativeZero = False"
| "truthy JSInfinity = True"
| "truthy JSNegativeInfinity = True"

text \<open>Property read \<^verbatim>\<open>obj.key\<close>: \<^verbatim>\<open>undefined\<close> when the property is absent.\<close>

definition get :: "JSValue \<Rightarrow> string \<Rightarrow> JSValue" where
  "get obj key =
     (case obj of
        JSObject kvs \<Rightarrow> (case map_of kvs key of Some v \<Rightarrow> v | None \<Rightarrow> JSUndefined)
      | _ \<Rightarrow> JSUndefined)"

text \<open>
  JavaScript's ToString, as a template literal and string concatenation apply it. The
  conversion of a number to its shortest round-tripping decimal is the host's; it is the
  parameter \<open>N2S\<close> of everything that prints a number.
\<close>

fun intercalate :: "string \<Rightarrow> string list \<Rightarrow> string" where
  "intercalate sep [] = []"
| "intercalate sep [s] = s"
| "intercalate sep (s # t # ss) = s @ sep @ intercalate sep (t # ss)"

fun ToString :: "(rat \<Rightarrow> string) \<Rightarrow> JSValue \<Rightarrow> string" where
  "ToString N2S JSUndefined = ''undefined''"
| "ToString N2S JSNull = ''null''"
| "ToString N2S (JSBoolean b) = (if b then ''true'' else ''false'')"
| "ToString N2S (JSNumber n) = N2S n"
| "ToString N2S JSNaN = ''NaN''"
| "ToString N2S (JSString s) = s"
| "ToString N2S (JSFunction f) = f"
| "ToString N2S (JSArray vs) =
     intercalate '',''
       (map (\<lambda>v. if v = JSUndefined \<or> v = JSNull then [] else ToString N2S v) vs)"
| "ToString N2S (JSObject kvs) = ''[object Object]''"
| "ToString N2S JSNegativeZero = ''0''"
| "ToString N2S JSInfinity = ''Infinity''"
| "ToString N2S JSNegativeInfinity = ''-Infinity''"

subsection \<open>Number.prototype.toFixed\<close>

fun digitsOf :: "nat \<Rightarrow> string" where
  "digitsOf n =
     (if n < 10 then [''0123456789'' ! n]
      else digitsOf (n div 10) @ [''0123456789'' ! (n mod 10)])"

declare digitsOf.simps [simp del]

text \<open>
  \<^verbatim>\<open>x.toFixed(f)\<close> for \<open>f \<le> 100\<close> (the caller checks the range): the sign is taken
  off first, so a negative number that rounds to zero keeps its minus sign; the integer
  \<open>n\<close> with \<open>n / 10^f\<close> nearest to \<open>x\<close> is the larger one on a tie; a magnitude of
  \<open>10^21\<close> or more is printed by ToString.
\<close>

definition toFixed :: "(rat \<Rightarrow> string) \<Rightarrow> rat \<Rightarrow> nat \<Rightarrow> string" where
  "toFixed N2S x0 f =
     (let s = (if x0 < 0 then ''-'' else '''');
          x = (if x0 < 0 then - x0 else x0);
          m = (if 10 ^ 21 \<le> x then N2S x
               else
                 let n = nat \<lfloor>x * 10 ^ f + 1 / 2\<rfloor>;
                     m0 = digitsOf n
                 in if f = 0 then m0
                    else
                      let m1 = (if length m0 \<le> f then replicate (f + 1 - length m0) CHR ''0'' @ m0 else m0);
                          k = length m1
                      in take (k - f) m1 @ ''.'' @ drop (k - f) m1)
      in s @ m)"

subsection \<open>Doubles\<close>

text \<open>
  A finite double is an integer of magnitude below \<open>2^53\<close> times a power of two with an
  exponent from \<open>-1074\<close> to \<open>971\<close>.
\<close>

definition isDouble :: "rat \<Rightarrow> bool" where
  "isDouble x =
     (\<exists>e \<in> {- 1074 .. 971}.
        rat_of_int \<lfloor>x / 2 powi e\<rfloor> = x / 2 powi e \<and> \<bar>x / 2 powi e\<bar> < 2 ^ 53)"

text \<open>
  The double nearest to a non-negative real, the one with the even significand on a tie:
  \<open>binaryExponent x\<close> is the \<open>k\<close> with \<open>2^k \<le> x < 2^(k+1)\<close>, the spacing of the doubles
  around \<open>x\<close> is \<open>2^(k-52)\<close> and never below \<open>2^-1074\<close>, and a result of \<open>2^1024\<close> or
  more is an infinity. The sign is put back at the end, on a zero as well.
\<close>

definition binaryExponent :: "rat \<Rightarrow> int" where
  "binaryExponent x =
     (case quotient_of x of
        (a, b) \<Rightarrow> let k = bitlen a - bitlen b in if 2 powi k \<le> x then k else k - 1)"

definition roundHalfEven :: "rat \<Rightarrow> int" where
  "roundHalfEven q =
     (let n = \<lfloor>q\<rfloor>; d = q - rat_of_int n
      in if d < 1 / 2 then n else if 1 / 2 < d then n + 1 else if even n then n else n + 1)"

definition toDouble :: "bool \<Rightarrow> rat \<Rightarrow> JSValue" where
  "toDouble negative x =
     (let y = (if x = 0 then 0
               else let e = max (binaryExponent x - 52) (- 1074)
                    in rat_of_int (roundHalfEven (x / 2 powi e)) * 2 powi e)
      in if 2 ^ 1024 \<le> y then (if negative then JSNegativeInfinity else JSInfinity)
         else if y = 0 then (if negative then JSNegativeZero else JSNumber 0)
         else JSNumber (if negative then - y else y))"

subsection \<open>Number(string)\<close>

text \<open>
  \<^verbatim>\<open>Number(s)\<close> on a string is the StringToNumber conversion: white space is trimmed, the
  empty string is \<open>0\<close>, a binary, octal or hexadecimal integer literal carries no sign, a
  decimal literal is an optional sign and then \<^verbatim>\<open>Infinity\<close> or digits with an optional
  point and an optional exponent, and every other string is NaN. The value of a literal is
  rounded to the nearest double; for a literal with more than 20 significant digits the
  standard leaves an implementation some room, and the rounding here is the exact one that
  the engines perform.
\<close>

definition isWhiteSpace :: "char \<Rightarrow> bool" where
  "isWhiteSpace c =
     (c \<in> set [CHR 0x09, CHR 0x0A, CHR 0x0B, CHR 0x0C, CHR 0x0D, CHR 0x20, CHR 0xA0])"

definition trim :: "string \<Rightarrow> string" where
  "trim s = rev (dropWhile isWhiteSpace (rev (dropWhile isWhiteSpace s)))"

definition isDigit :: "char \<Rightarrow> bool" where
  "isDigit c = (c \<in> set ''0123456789'')"

definition digitValue :: "char \<Rightarrow> int" where
  "digitValue c =
     (if c \<in> set ''0123456789'' then int (length (takeWhile (\<lambda>d. d \<noteq> c) ''0123456789''))
      else if c \<in> set ''abcdef'' then 10 + int (length (takeWhile (\<lambda>d. d \<noteq> c) ''abcdef''))
      else 10 + int (length (takeWhile (\<lambda>d. d \<noteq> c) ''ABCDEF'')))"

definition intOfDigits :: "int \<Rightarrow> string \<Rightarrow> int" where
  "intOfDigits radix ds = foldl (\<lambda>acc c. radix * acc + digitValue c) 0 ds"

definition signedInteger :: "string \<Rightarrow> int option" where
  "signedInteger s =
     (let negative = (s \<noteq> [] \<and> hd s = CHR ''-'');
          ds = (if s \<noteq> [] \<and> (hd s = CHR ''-'' \<or> hd s = CHR ''+'') then tl s else s)
      in if ds \<noteq> [] \<and> list_all isDigit ds
         then Some ((if negative then - 1 else 1) * intOfDigits 10 ds)
         else None)"

text \<open>
  The value of an unsigned decimal literal other than \<^verbatim>\<open>Infinity\<close>: digits, an optional
  point with digits on at least one side, and an optional exponent part.
\<close>

definition decimalValue :: "string \<Rightarrow> rat option" where
  "decimalValue body =
     (let mantissa = takeWhile (\<lambda>c. c \<noteq> CHR ''e'' \<and> c \<noteq> CHR ''E'') body;
          tail = dropWhile (\<lambda>c. c \<noteq> CHR ''e'' \<and> c \<noteq> CHR ''E'') body;
          whole = takeWhile (\<lambda>c. c \<noteq> CHR ''.'') mantissa;
          rest = dropWhile (\<lambda>c. c \<noteq> CHR ''.'') mantissa;
          frac = (if rest = [] then [] else tl rest);
          exponent = (if tail = [] then Some 0 else signedInteger (tl tail))
      in if list_all isDigit whole \<and> list_all isDigit frac \<and> (whole \<noteq> [] \<or> frac \<noteq> [])
         then map_option
                (\<lambda>e. (rat_of_int (intOfDigits 10 whole)
                        + rat_of_int (intOfDigits 10 frac) / 10 ^ length frac) * 10 powi e)
                exponent
         else None)"

text \<open>The value of a binary, octal or hexadecimal integer literal.\<close>

definition nonDecimalValue :: "string \<Rightarrow> int option" where
  "nonDecimalValue s =
     (case s of
        c0 # c1 # ds \<Rightarrow>
          if c0 = CHR ''0'' \<and> ds \<noteq> [] then
            (if (c1 = CHR ''x'' \<or> c1 = CHR ''X'')
                \<and> list_all (\<lambda>c. c \<in> set ''0123456789abcdefABCDEF'') ds
             then Some (intOfDigits 16 ds)
             else if (c1 = CHR ''o'' \<or> c1 = CHR ''O'') \<and> list_all (\<lambda>c. c \<in> set ''01234567'') ds
             then Some (intOfDigits 8 ds)
             else if (c1 = CHR ''b'' \<or> c1 = CHR ''B'') \<and> list_all (\<lambda>c. c \<in> set ''01'') ds
             then Some (intOfDigits 2 ds)
             else None)
          else None
      | _ \<Rightarrow> None)"

definition Number' :: "string \<Rightarrow> JSValue" where
  "Number' str =
     (let s = trim str;
          negative = (s \<noteq> [] \<and> hd s = CHR ''-'');
          body = (if s \<noteq> [] \<and> (hd s = CHR ''-'' \<or> hd s = CHR ''+'') then tl s else s)
      in if s = [] then JSNumber 0
         else (case nonDecimalValue s of
                 Some n \<Rightarrow> toDouble False (rat_of_int n)
               | None \<Rightarrow>
                   if body = ''Infinity''
                   then (if negative then JSNegativeInfinity else JSInfinity)
                   else (case decimalValue body of
                           Some mv \<Rightarrow> toDouble negative mv
                         | None \<Rightarrow> JSNaN)))"

section \<open>Nodes\<close>

text \<open>
  A node is an object with a truthy \<^verbatim>\<open>kind\<close>. The factories \<^verbatim>\<open>Raw\<close>, \<^verbatim>\<open>Filled\<close> and
  \<^verbatim>\<open>Linked\<close> attach the operations below to every node as function-valued properties;
  here each operation is a function of the node (\<^verbatim>\<open>this\<close>), and, for the operations of a
  linked node, of the environment that the closures of \<^verbatim>\<open>Linked\<close> capture.
\<close>

definition isNode :: "JSValue \<Rightarrow> bool" where
  "isNode obj = (truthy obj \<and> truthy (get obj ''kind''))"

definition is' :: "JSValue \<Rightarrow> string \<Rightarrow> bool" where
  "is' this kind =
     (if kind = ''Entity'' then
        get this ''kind'' \<in> set (map JSString
          [''Package'', ''Class'', ''Singleton'', ''Mixin'', ''Program'', ''Describe'', ''Test''])
      else if kind = ''Module'' then
        get this ''kind'' \<in> set (map JSString [''Singleton'', ''Mixin'', ''Class''])
      else if kind = ''Expression'' then
        get this ''kind'' \<in> set (map JSString
          [''Reference'', ''Self'', ''Literal'', ''Send'', ''Super'', ''New'', ''If'', ''Throw'', ''Try''])
      else if kind = ''Sentence'' then
        get this ''kind'' \<in> set (map JSString [''Variable'', ''Return'', ''Assignment''])
      else get this ''kind'' = JSString kind)"

text \<open>\<^verbatim>\<open>Object.values\<close>: the property values of an object, the elements of an array.\<close>

definition values' :: "JSValue \<Rightarrow> JSValue list" where
  "values' obj = (case obj of JSObject kvs \<Rightarrow> map snd kvs | JSArray vs \<Rightarrow> vs | _ \<Rightarrow> [])"

subsection \<open>children\<close>

text \<open>
  The function that \<^verbatim>\<open>children\<close> memoises, the argument of \<^verbatim>\<open>cache\<close> in \<^verbatim>\<open>Raw\<close>: it
  walks every property value of the node, through arrays and through objects that are not
  nodes, and stops at the first node on each path. \<open>ownChildren\<close> is what a node answers
  from its own property values, without any memo.
\<close>

fun extractChildren :: "JSValue \<Rightarrow> JSValue list" where
  "extractChildren owner =
     (if isNode owner then [owner]
      else case owner of
        JSArray vs \<Rightarrow> concat (map extractChildren vs)
      | JSObject kvs \<Rightarrow> concat (map extractChildren (map snd kvs))
      | _ \<Rightarrow> [])"

declare extractChildren.simps [simp del]

definition ownChildren :: "JSValue \<Rightarrow> JSValue list" where
  "ownChildren this = concat (map extractChildren (values' this))"

text \<open>
  The children of a value are strictly smaller than the value: the measure behind the
  termination of every traversal below.
\<close>

lemma sum_list_concat_le:
  fixes g :: "'b \<Rightarrow> nat"
  assumes "\<And>x. x \<in> set xs \<Longrightarrow> (\<Sum>c\<leftarrow>f x. g c) \<le> h x"
  shows "(\<Sum>c\<leftarrow>concat (map f xs). g c) \<le> (\<Sum>x\<leftarrow>xs. h x)"
  using assms
proof (induction xs)
  case Nil
  then show ?case by simp
next
  case (Cons a xs)
  have "(\<Sum>c\<leftarrow>f a. g c) \<le> h a"
    using Cons.prems by simp
  moreover have "(\<Sum>c\<leftarrow>concat (map f xs). g c) \<le> (\<Sum>x\<leftarrow>xs. h x)"
    using Cons by simp
  ultimately show ?case by simp
qed

lemma size_list_values: "(\<Sum>v\<leftarrow>vs. Suc (size v)) = size_list size vs"
  by (induction vs) auto

lemma size_list_properties:
  "(\<Sum>v\<leftarrow>map snd kvs. Suc (size v)) \<le> size_list (size_prod (\<lambda>x. 0) size) kvs"
  by (induction kvs) auto

lemma extractChildren_weight: "(\<Sum>c\<leftarrow>extractChildren v. Suc (size c)) \<le> Suc (size v)"
proof (induction v rule: extractChildren.induct)
  case (1 owner)
  show ?case
  proof (cases "isNode owner")
    case True
    then show ?thesis by (simp add: extractChildren.simps)
  next
    case False
    show ?thesis
    proof (cases owner)
      case (JSArray vs)
      have "(\<Sum>c\<leftarrow>concat (map extractChildren vs). Suc (size c)) \<le> (\<Sum>v\<leftarrow>vs. Suc (size v))"
        using 1(1) [OF False JSArray] by (rule sum_list_concat_le)
      then show ?thesis
        using False JSArray by (simp add: extractChildren.simps size_list_values)
    next
      case (JSObject kvs)
      have "(\<Sum>c\<leftarrow>concat (map extractChildren (map snd kvs)). Suc (size c))
              \<le> (\<Sum>v\<leftarrow>map snd kvs. Suc (size v))"
        using 1(2) [OF False JSObject] by (rule sum_list_concat_le)
      also note size_list_properties
      finally show ?thesis
        using False JSObject by (simp add: extractChildren.simps)
    qed (use False in \<open>simp_all add: extractChildren.simps\<close>)
  qed
qed

lemma children_weight: "(\<Sum>c\<leftarrow>ownChildren n. Suc (size c)) \<le> size n"
proof (cases n)
  case (JSArray vs)
  have "(\<Sum>c\<leftarrow>concat (map extractChildren vs). Suc (size c)) \<le> (\<Sum>v\<leftarrow>vs. Suc (size v))"
    by (rule sum_list_concat_le) (rule extractChildren_weight)
  then show ?thesis
    using JSArray by (simp add: ownChildren_def values'_def size_list_values)
next
  case (JSObject kvs)
  have "(\<Sum>c\<leftarrow>concat (map extractChildren (map snd kvs)). Suc (size c))
          \<le> (\<Sum>v\<leftarrow>map snd kvs. Suc (size v))"
    by (rule sum_list_concat_le) (rule extractChildren_weight)
  also note size_list_properties
  finally show ?thesis
    using JSObject by (simp add: ownChildren_def values'_def)
qed (simp_all add: ownChildren_def values'_def)

lemma children_smaller: "c \<in> set (ownChildren n) \<Longrightarrow> size c < size n"
proof -
  assume "c \<in> set (ownChildren n)"
  then have "Suc (size c) \<le> (\<Sum>c\<leftarrow>ownChildren n. Suc (size c))"
    by (induction "ownChildren n" arbitrary: n) (auto simp: member_le_sum_list)
  then show ?thesis using children_weight [of n] by simp
qed

text \<open>
  \<^verbatim>\<open>cache(f)\<close> returns a closure over a table \<^verbatim>\<open>CACHE\<close> of its own, keyed by node id;
  here the table is an argument and a result. \<^verbatim>\<open>this.id && CACHE.get(this.id)\<close>: with a
  falsy id nothing is read and nothing is stored. The only function that the source wraps
  is the one above, whose results are arrays, and an array is truthy: a stored result is
  always the answer.
\<close>

type_synonym Cache = "JSValue \<rightharpoonup> JSValue list"

definition cache :: "(JSValue \<Rightarrow> JSValue list) \<Rightarrow> Cache \<Rightarrow> JSValue \<Rightarrow> JSValue list \<times> Cache" where
  "cache f CACHE this =
     (case (if truthy (get this ''id'') then CACHE (get this ''id'') else None) of
        Some cached \<Rightarrow> (cached, CACHE)
      | None \<Rightarrow>
          let response = f this
          in (response,
              if truthy (get this ''id'') then CACHE(get this ''id'' \<mapsto> response) else CACHE))"

text \<open>
  \<^verbatim>\<open>Raw\<close> calls \<^verbatim>\<open>cache\<close> once for every node it builds, so that node holds a closure
  with an empty table. A spread, \<^verbatim>\<open>mapObject\<close> and \<^verbatim>\<open>transform\<close> copy the property
  \<^verbatim>\<open>children\<close>, and with it the closure and its table, to the node they build: a node
  rewritten after its children were memoised answers with the old children. The closure
  that a node holds is the value of its \<^verbatim>\<open>children\<close> property, and \<open>caches\<close> gives the
  table of every closure. Nodes that are written here without the property all read the
  table of the same closure.
\<close>

type_synonym Caches = "JSValue \<Rightarrow> Cache"

definition children :: "Caches \<Rightarrow> JSValue \<Rightarrow> JSValue list \<times> Caches" where
  "children caches this =
     (case cache ownChildren (caches (get this ''children'')) this of
        (response, CACHE) \<Rightarrow> (response, caches(get this ''children'' := CACHE)))"

lemma property_smaller: "(key, v) \<in> set kvs \<Longrightarrow> size v < size (JSObject kvs)"
  by (induction kvs) auto

lemma element_smaller: "v \<in> set vs \<Longrightarrow> size v < size (JSArray vs)"
  by (induction vs) auto

subsection \<open>descendants\<close>

text \<open>
  The do-while loop of \<^verbatim>\<open>descendants\<close>: \<open>next\<close> is the node being expanded,
  \<open>pending\<close> the queue and \<open>response\<close> the result so far. An absent kind keeps every
  child. \<open>ownDescendants\<close> is the loop over \<open>ownChildren\<close>, which always ends; the loop
  over the memoised \<^verbatim>\<open>children()\<close> follows it.
\<close>

function ownDescendantsFrom ::
  "string option \<Rightarrow> JSValue \<Rightarrow> JSValue list \<Rightarrow> JSValue list \<Rightarrow> JSValue list" where
  "ownDescendantsFrom kind next pending response =
     (let cs = ownChildren next;
          response' = response @ (case kind of Some k \<Rightarrow> filter (\<lambda>child. is' child k) cs | None \<Rightarrow> cs);
          pending' = pending @ cs
      in case pending' of
           [] \<Rightarrow> response'
         | next' # rest \<Rightarrow> ownDescendantsFrom kind next' rest response')"
  by pat_completeness auto
termination
proof (relation "measure (\<lambda>(kind, next, pending, response). \<Sum>m\<leftarrow>next # pending. Suc (size m))")
  fix kind :: "string option" and "next" next' :: JSValue and pending response cs response' pending' rest :: "JSValue list"
  assume "cs = ownChildren next" and "pending' = pending @ cs" and "pending' = next' # rest"
  then have "(\<Sum>m\<leftarrow>next' # rest. Suc (size m)) = (\<Sum>m\<leftarrow>pending. Suc (size m)) + (\<Sum>c\<leftarrow>ownChildren next. Suc (size c))"
    by (metis map_append sum_list.append)
  then show "((kind, next', rest, response'), (kind, next, pending, response))
               \<in> measure (\<lambda>(kind, next, pending, response). \<Sum>m\<leftarrow>next # pending. Suc (size m))"
    using children_weight [of "next"] by simp
qed simp

declare ownDescendantsFrom.simps [simp del]

definition ownDescendants :: "JSValue \<Rightarrow> string option \<Rightarrow> JSValue list" where
  "ownDescendants this kind = ownDescendantsFrom kind this [] []"

text \<open>
  The loop as the source runs it, over \<^verbatim>\<open>children()\<close>. A memo table may answer with
  nodes that lead back to the node asked, so the loop need not end: it takes fuel, one
  unit for every turn, and \<open>None\<close> is a run that needs more. \<^verbatim>\<open>while (next)\<close> also stops
  at a falsy element, and a falsy kind (absent or empty) keeps every child.
\<close>

fun descendantsFrom ::
  "nat \<Rightarrow> Caches \<Rightarrow> string option \<Rightarrow> JSValue \<Rightarrow> JSValue list \<Rightarrow> JSValue list
     \<Rightarrow> (JSValue list \<times> Caches) option" where
  "descendantsFrom 0 caches kind next pending response = None"
| "descendantsFrom (Suc fuel) caches kind next pending response =
     (case children caches next of
        (cs, caches') \<Rightarrow>
          let response' =
                response @ (case kind of
                              Some k \<Rightarrow> if k = [] then cs else filter (\<lambda>child. is' child k) cs
                            | None \<Rightarrow> cs);
              pending' = pending @ cs
          in case pending' of
               [] \<Rightarrow> Some (response', caches')
             | next' # rest \<Rightarrow>
                 if truthy next' then descendantsFrom fuel caches' kind next' rest response'
                 else Some (response', caches'))"

definition descendants ::
  "nat \<Rightarrow> Caches \<Rightarrow> JSValue \<Rightarrow> string option \<Rightarrow> (JSValue list \<times> Caches) option" where
  "descendants fuel caches this kind = descendantsFrom fuel caches kind this [] []"

subsection \<open>reduce\<close>

text \<open>
  \<^verbatim>\<open>this.children().reduce((acum, child) => child.reduce(tx, acum), tx(initial, this))\<close>.
  \<open>ownReduce\<close> is the fold over \<open>ownChildren\<close>; \<open>reduce'\<close> is the fold as the source runs
  it, over \<^verbatim>\<open>children()\<close>, with fuel for the depth of the recursion.
\<close>

function ownReduce :: "('t \<Rightarrow> JSValue \<Rightarrow> 't) \<Rightarrow> 't \<Rightarrow> JSValue \<Rightarrow> 't" where
  "ownReduce tx initial this = foldl (\<lambda>acum child. ownReduce tx acum child) (tx initial this) (ownChildren this)"
  by pat_completeness auto
termination
  by (relation "measure (\<lambda>(tx, initial, this). size this)") (auto simp: children_smaller)

declare ownReduce.simps [simp del]

fun reduce' ::
  "nat \<Rightarrow> Caches \<Rightarrow> ('t \<Rightarrow> JSValue \<Rightarrow> 't) \<Rightarrow> 't \<Rightarrow> JSValue \<Rightarrow> ('t \<times> Caches) option" where
  "reduce' 0 caches tx initial this = None"
| "reduce' (Suc fuel) caches tx initial this =
     (case children caches this of
        (cs, caches') \<Rightarrow>
          foldl (\<lambda>state child.
                   case state of
                     None \<Rightarrow> None
                   | Some (acum, caches'') \<Rightarrow> reduce' fuel caches'' tx acum child)
            (Some (tx initial this, caches')) cs)"

subsection \<open>transform\<close>

text \<open>
  The argument of \<^verbatim>\<open>transform\<close> is a function from a node to a node, or an object that
  maps kinds to such functions. A single function returns a node, that is an object: its
  result is given as the property list of that object. With a single function the
  recursion continues into whatever the function returned, so it need not terminate:
  \<open>applyTransform\<close> takes fuel, and \<open>None\<close> is a run that needs more.
\<close>

datatype Transform =
    TxFunction "JSValue \<Rightarrow> (string \<times> JSValue) list"
  | TxByKind "string \<Rightarrow> (JSValue \<Rightarrow> JSValue) option"

text \<open>
  Modelled from the spec: \<^verbatim>\<open>mapObject\<close> of the extensions module, which is not among the
  sources; the spec lists it as an ordered mapping transform. It builds a new object with
  the same keys in the same order, each value replaced by the function's result.
\<close>

definition mapObject :: "(JSValue \<Rightarrow> JSValue option) \<Rightarrow> (string \<times> JSValue) list \<Rightarrow> JSValue option" where
  "mapObject tx obj = map_option JSObject (those (map (\<lambda>(key, v). map_option (Pair key) (tx v)) obj))"

fun applyTransform :: "(rat \<Rightarrow> string) \<Rightarrow> Transform \<Rightarrow> nat \<Rightarrow> JSValue \<Rightarrow> JSValue option" where
  "applyTransform N2S tx 0 v = None"
| "applyTransform N2S tx (Suc fuel) v =
     (case v of
        JSFunction f \<Rightarrow> Some v
      | JSArray vs \<Rightarrow> map_option JSArray (those (map (applyTransform N2S tx fuel) vs))
      | JSObject kvs \<Rightarrow>
          if isNode v then
            (case tx of
               TxFunction f \<Rightarrow> mapObject (applyTransform N2S tx fuel) (f v)
             | TxByKind byKind \<Rightarrow>
                 map_option
                   (case byKind (ToString N2S (get v ''kind'')) of Some f \<Rightarrow> f | None \<Rightarrow> (\<lambda>n. n))
                   (mapObject (applyTransform N2S tx fuel) kvs))
          else mapObject (applyTransform N2S tx fuel) kvs
      | _ \<Rightarrow> Some v)"

definition transform :: "(rat \<Rightarrow> string) \<Rightarrow> nat \<Rightarrow> JSValue \<Rightarrow> Transform \<Rightarrow> JSValue option" where
  "transform N2S fuel this tx = applyTransform N2S tx fuel this"

text \<open>
  The spec's bottom-up rewrite, in its words: a node is rewritten after its children have
  been rewritten; values that are neither nodes nor sequences nor records pass through
  unchanged, and so do functions. \<open>rewrite original rewritten\<close> is the rewrite chosen for
  the node \<open>original\<close>, applied to the node with its property values already rewritten.
\<close>

fun rewriteBottomUp :: "(JSValue \<Rightarrow> JSValue \<Rightarrow> JSValue) \<Rightarrow> JSValue \<Rightarrow> JSValue" where
  "rewriteBottomUp rewrite (JSArray vs) = JSArray (map (rewriteBottomUp rewrite) vs)"
| "rewriteBottomUp rewrite (JSObject kvs) =
     (let rewritten = JSObject (map (\<lambda>(key, v). (key, rewriteBottomUp rewrite v)) kvs)
      in if isNode (JSObject kvs) then rewrite (JSObject kvs) rewritten else rewritten)"
| "rewriteBottomUp rewrite v = v"

text \<open>
  A transform that shows the order of application: it records on each node whether the
  node under \<^verbatim>\<open>value\<close> had been marked \<^verbatim>\<open>done\<close> when the node was rewritten.
\<close>

definition markChildDone :: "JSValue \<Rightarrow> (string \<times> JSValue) list" where
  "markChildDone n =
     [(''kind'', get n ''kind''), (''value'', get n ''value''),
      (''childDone'', JSBoolean (truthy (get (get n ''value'') ''done''))),
      (''done'', JSBoolean True)]"

section \<open>Linked nodes\<close>

text \<open>
  \<^verbatim>\<open>Linked\<close> decorates every node of an environment with operations that close over the
  environment; here the environment is their first argument. An operation that the
  factory attaches to some kinds only (\<^verbatim>\<open>if (node.is('Package')) assign(...)\<close>) is absent
  on the other kinds, and calling it there is a TypeError: \<open>NotAFunction\<close>. The other
  errors are the ones the code throws, with the values their messages interpolate.
  Attributes are read with \<open>get\<close>; where the code builds a string from an attribute
  that the model declares as a string (\<^verbatim>\<open>name\<close>, \<^verbatim>\<open>id\<close>), \<open>stringOf\<close> reads it, and
  \<open>arrayOf\<close> reads an attribute declared as a list.

  The nodes of a linked environment come out of \<^verbatim>\<open>Linked\<close>: \<^verbatim>\<open>Filled\<close> builds each of
  them and hands it a \<^verbatim>\<open>children\<close> closure of its own with an empty table, and the tree
  is not rewritten afterwards. The table of a node then holds nothing but what that node
  answers from its own property values, and in such a state \<^verbatim>\<open>children()\<close> and
  \<^verbatim>\<open>descendants()\<close> answer \<open>ownChildren\<close> and \<open>ownDescendants\<close> and leave the state
  such (lemmas \<open>children_coherent\<close>, \<open>descendants_coherent\<close> and
  \<open>coherent_unique_ids\<close>). The operations of a
  linked node read the tree through \<open>ownChildren\<close> and \<open>ownDescendants\<close>; the tables
  \<^verbatim>\<open>NODE_CACHE\<close>, \<^verbatim>\<open>PARENT_CACHE\<close> and \<^verbatim>\<open>FQN_CACHE\<close> are likewise taken as the
  computations they memoise.
\<close>

datatype LinkError =
    MissingNode JSValue
  | UnresolvedReference string
  | UnresolvedReferenceFrom string JSValue
  | NotInEnvironment JSValue JSValue
  | NotAFunction string

definition stringOf :: "JSValue \<Rightarrow> string" where
  "stringOf v = (case v of JSString s \<Rightarrow> s | _ \<Rightarrow> [])"

definition arrayOf :: "JSValue \<Rightarrow> JSValue list" where
  "arrayOf v = (case v of JSArray vs \<Rightarrow> vs | _ \<Rightarrow> [])"

text \<open>\<^verbatim>\<open>String.prototype.split\<close> with a separator of one character.\<close>

fun split :: "char \<Rightarrow> string \<Rightarrow> string list" where
  "split sep [] = [[]]"
| "split sep (c # cs) =
     (if c = sep then [] # split sep cs
      else (case split sep cs of piece # pieces \<Rightarrow> (c # piece) # pieces | [] \<Rightarrow> [[c]]))"

text \<open>
  Modelled from the spec: \<^verbatim>\<open>divideOn\<close> of the extensions module, which is not among the
  sources. The spec has \<^verbatim>\<open>getNodeByFQN\<close> and \<^verbatim>\<open>target\<close> split a name on its first
  separator: the head is what precedes it, the rest what follows (empty when there is no
  separator).
\<close>

definition divideOn :: "char \<Rightarrow> string \<Rightarrow> string \<times> string" where
  "divideOn separator str =
     (case split separator str of
        h # t \<Rightarrow> (h, intercalate [separator] t)
      | [] \<Rightarrow> ([], []))"

subsection \<open>getNodeById\<close>

text \<open>
  The recursive search of \<^verbatim>\<open>getNodeById\<close> visits an array element by element and an
  object through its values, and returns the first node whose id is the one sought.
  \<open>firstFound\<close> is the loop that returns the first result that is found. The
  process-wide caches \<^verbatim>\<open>NODE_CACHE\<close> and \<^verbatim>\<open>PARENT_CACHE\<close> and the environment's
  \<^verbatim>\<open>FQN_CACHE\<close> memoise computations on an environment that does not change: the
  embedding is the computation.
\<close>

fun firstFound :: "'a option list \<Rightarrow> 'a option" where
  "firstFound [] = None"
| "firstFound (Some found # rest) = Some found"
| "firstFound (None # rest) = firstFound rest"

fun search :: "JSValue \<Rightarrow> JSValue \<Rightarrow> JSValue option" where
  "search i obj =
     (case obj of
        JSArray vs \<Rightarrow> firstFound (map (search i) vs)
      | JSObject kvs \<Rightarrow>
          if isNode obj \<and> get obj ''id'' = i then Some obj
          else firstFound (map (search i) (map snd kvs))
      | _ \<Rightarrow> None)"

declare search.simps [simp del]

definition getNodeById :: "JSValue \<Rightarrow> JSValue \<Rightarrow> LinkError + JSValue" where
  "getNodeById environment i =
     (case search i environment of
        None \<Rightarrow> Inl (MissingNode i)
      | Some response \<Rightarrow> Inr response)"

subsection \<open>Qualified names\<close>

definition getNodeByQN :: "JSValue \<Rightarrow> JSValue \<Rightarrow> Name \<Rightarrow> LinkError + JSValue" where
  "getNodeByQN environment this qualifiedName =
     (if \<not> is' this ''Package'' then Inl (NotAFunction ''getNodeByQN'')
      else
        let byId = (case split CHR ''#'' qualifiedName of
                      before # i # after \<Rightarrow> i
                    | _ \<Rightarrow> [])
        in if byId \<noteq> [] then getNodeById environment (JSString byId)
           else
             foldl
               (\<lambda>current step.
                  case current of
                    Inl err \<Rightarrow> Inl err
                  | Inr node \<Rightarrow>
                      (case find (\<lambda>child. is' child ''Entity'' \<and> get child ''name'' = JSString step)
                              (ownChildren node) of
                         None \<Rightarrow> Inl (UnresolvedReferenceFrom qualifiedName (get this ''name''))
                       | Some next \<Rightarrow> Inr next))
               (Inr this) (split CHR ''.'' qualifiedName))"


subsection \<open>parent and fullyQualifiedName\<close>


definition target :: "JSValue \<Rightarrow> JSValue \<Rightarrow> LinkError + JSValue" where
  "target environment this =
     (if \<not> is' this ''Reference'' then Inl (NotAFunction ''target'')
      else
        case divideOn CHR ''.'' (stringOf (get this ''name'')) of
          (start, rest) \<Rightarrow>
            (case getNodeById environment (get (get this ''scope'') start) of
               Inl err \<Rightarrow> Inl err
             | Inr root' \<Rightarrow> if rest \<noteq> [] then getNodeByQN environment root' rest else Inr root'))"



subsection \<open>Modules\<close>

definition methods :: "JSValue \<Rightarrow> JSValue list" where
  "methods this = filter (\<lambda>member. is' member ''Method'') (arrayOf (get this ''members''))"

definition superclassNode :: "JSValue \<Rightarrow> JSValue \<Rightarrow> LinkError + JSValue option" where
  "superclassNode environment this =
     (if is' this ''Singleton'' then
        (case target environment (get (get this ''superCall'') ''superclass'') of
           Inl err \<Rightarrow> Inl err
         | Inr superclass \<Rightarrow> Inr (Some superclass))
      else if is' this ''Class'' then
        (if truthy (get this ''superclass'') then
           (case target environment (get this ''superclass'') of
              Inl err \<Rightarrow> Inl err
            | Inr superclass \<Rightarrow> Inr (Some superclass))
         else Inr None)
      else Inl (NotAFunction ''superclassNode''))"

fun targets :: "JSValue \<Rightarrow> JSValue list \<Rightarrow> LinkError + JSValue list" where
  "targets environment [] = Inr []"
| "targets environment (reference # references) =
     (case target environment reference of
        Inl err \<Rightarrow> Inl err
      | Inr module' \<Rightarrow>
          (case targets environment references of
             Inl err \<Rightarrow> Inl err
           | Inr modules \<Rightarrow> Inr (module' # modules)))"

definition hierarchyParents :: "JSValue \<Rightarrow> JSValue \<Rightarrow> LinkError + JSValue list" where
  "hierarchyParents environment module' =
     (case get module' ''mixins'' of
        JSArray mixins \<Rightarrow>
          (case targets environment mixins of
             Inl err \<Rightarrow> Inl err
           | Inr mixinModules \<Rightarrow>
               if get module' ''kind'' = JSString ''Mixin'' then Inr mixinModules
               else
                 (case superclassNode environment module' of
                    Inl err \<Rightarrow> Inl err
                  | Inr None \<Rightarrow> Inr mixinModules
                  | Inr (Some superclass) \<Rightarrow> Inr (mixinModules @ [superclass])))
      | _ \<Rightarrow> Inl (NotAFunction ''mixins.map''))"

subsection \<open>The nodes of an environment\<close>

text \<open>
  \<open>subtree n\<close> lists \<open>n\<close> and every node below it, depth first. It is the yardstick for
  the traversals of the code: \<^verbatim>\<open>descendants\<close> lists the same nodes breadth first, the
  search of \<^verbatim>\<open>getNodeById\<close> finds the first of them with the id, and whatever a
  reference resolves to is one of them. The last fact bounds the recursion of
  \<^verbatim>\<open>hierarchy\<close>.
\<close>

function subtree :: "JSValue \<Rightarrow> JSValue list" where
  "subtree n = n # concat (map subtree (ownChildren n))"
  by pat_completeness auto
termination
  by (relation "measure size") (auto simp: children_smaller)

declare subtree.simps [simp del]

lemma subtree_self: "n \<in> set (subtree n)"
  by (subst subtree.simps) simp

lemma subtree_child: "c \<in> set (ownChildren n) \<Longrightarrow> m \<in> set (subtree c) \<Longrightarrow> m \<in> set (subtree n)"
  by (subst subtree.simps) auto

lemma subtree_cases:
  "m \<in> set (subtree n) \<Longrightarrow> m = n \<or> (\<exists>c \<in> set (ownChildren n). m \<in> set (subtree c))"
  by (subst (asm) subtree.simps) auto

lemma subtree_trans: "p \<in> set (subtree n) \<Longrightarrow> m \<in> set (subtree p) \<Longrightarrow> m \<in> set (subtree n)"
proof (induction "size n" arbitrary: n rule: less_induct)
  case less
  from subtree_cases [OF less.prems(1)] show ?case
  proof
    assume "p = n"
    then show ?thesis using less.prems(2) by simp
  next
    assume "\<exists>c \<in> set (ownChildren n). p \<in> set (subtree c)"
    then obtain c where c: "c \<in> set (ownChildren n)" and p: "p \<in> set (subtree c)" by blast
    have "m \<in> set (subtree c)"
      using less.hyps [OF children_smaller [OF c] p less.prems(2)] .
    then show ?thesis using c by (rule subtree_child [rotated])
  qed
qed

lemma subtree_children_closed:
  "p \<in> set (subtree n) \<Longrightarrow> c \<in> set (ownChildren p) \<Longrightarrow> c \<in> set (subtree n)"
  using subtree_trans [of p n c] subtree_child [of c p c] subtree_self [of c] by blast

lemma mset_descendantsFrom:
  "mset (ownDescendantsFrom None next pending response)
     = mset response + (\<Sum>m\<leftarrow>next # pending. mset (concat (map subtree (ownChildren m))))"
proof (induction "None :: string option" "next" pending response rule: ownDescendantsFrom.induct)
  case (1 "next" pending response)
  have expand: "mset (concat (map subtree cs))
      = mset cs + (\<Sum>c\<leftarrow>cs. mset (concat (map subtree (ownChildren c))))" for cs
  proof (induction cs)
    case Nil
    then show ?case by simp
  next
    case (Cons a cs)
    have "mset (subtree a) = {#a#} + mset (concat (map subtree (ownChildren a)))"
      by (subst subtree.simps) simp
    then show ?case using Cons by simp
  qed
  show ?case
  proof (cases "pending @ ownChildren next")
    case Nil
    have "ownDescendantsFrom None next pending response = response"
      using Nil by (subst ownDescendantsFrom.simps) simp
    then show ?thesis using Nil by simp
  next
    case (Cons next' rest)
    have "mset (ownDescendantsFrom None next pending response)
            = mset (ownDescendantsFrom None next' rest (response @ ownChildren next))"
      using Cons by (subst ownDescendantsFrom.simps) simp
    also have "\<dots> = mset (response @ ownChildren next)
                      + (\<Sum>m\<leftarrow>next' # rest. mset (concat (map subtree (ownChildren m))))"
      using 1 [OF refl refl refl Cons] by simp
    also have "(\<Sum>m\<leftarrow>next' # rest. mset (concat (map subtree (ownChildren m))))
                 = (\<Sum>m\<leftarrow>pending @ ownChildren next. mset (concat (map subtree (ownChildren m))))"
      using Cons by simp
    finally show ?thesis
      by (simp add: expand [of "ownChildren next"])
  qed
qed

lemma mset_descendants: "mset (n # ownDescendants n None) = mset (subtree n)"
  by (subst subtree.simps) (simp add: ownDescendants_def mset_descendantsFrom)


lemma find_append':
  "find P (xs @ ys) = (case find P xs of None \<Rightarrow> find P ys | Some x \<Rightarrow> Some x)"
  by (induction xs) auto

lemma firstFound_map_find:
  "firstFound (map (\<lambda>x. find P (f x)) xs) = find P (concat (map f xs))"
proof (induction xs)
  case Nil
  then show ?case by simp
next
  case (Cons a xs)
  then show ?case by (cases "find P (f a)") (simp_all add: find_append')
qed

lemma find_SomeD: "find P xs = Some x \<Longrightarrow> x \<in> set xs \<and> P x"
  by (induction xs) (auto split: if_splits)

lemma concat_map_concat:
  "concat (map f (concat (map g xs))) = concat (map (\<lambda>x. concat (map f (g x))) xs)"
  by (induction xs) auto

lemma search_find:
  "search i v = find (\<lambda>m. get m ''id'' = i) (concat (map subtree (extractChildren v)))"
proof (induction "size v" arbitrary: v rule: less_induct)
  case less
  show ?case
  proof (cases v)
    case (JSArray vs)
    have not_node: "\<not> isNode v"
      using JSArray by (simp add: isNode_def get_def)
    have "map (search i) vs = map (\<lambda>x. find (\<lambda>m. get m ''id'' = i) (concat (map subtree (extractChildren x)))) vs"
    proof (rule map_cong [OF refl])
      fix x assume "x \<in> set vs"
      then have "size x < size v" using JSArray element_smaller by simp
      then show "search i x = find (\<lambda>m. get m ''id'' = i) (concat (map subtree (extractChildren x)))"
        by (rule less)
    qed
    then have "firstFound (map (search i) vs) = find (\<lambda>m. get m ''id'' = i)
        (concat (map (\<lambda>x. concat (map subtree (extractChildren x))) vs))"
      by (simp only: firstFound_map_find)
    moreover have "search i v = firstFound (map (search i) vs)"
      using JSArray by (subst search.simps) simp
    ultimately have "search i v = find (\<lambda>m. get m ''id'' = i)
        (concat (map (\<lambda>x. concat (map subtree (extractChildren x))) vs))"
      by simp
    moreover have "extractChildren v = concat (map extractChildren vs)"
      using JSArray not_node by (subst extractChildren.simps) simp
    ultimately show ?thesis by (simp add: concat_map_concat)
  next
    case (JSObject kvs)
    have "map (search i) (map snd kvs)
        = map (\<lambda>x. find (\<lambda>m. get m ''id'' = i) (concat (map subtree (extractChildren x)))) (map snd kvs)"
    proof (rule map_cong [OF refl])
      fix x assume "x \<in> set (map snd kvs)"
      then obtain key where "(key, x) \<in> set kvs" by auto
      then have "size x < size v" using JSObject property_smaller by simp
      then show "search i x = find (\<lambda>m. get m ''id'' = i) (concat (map subtree (extractChildren x)))"
        by (rule less)
    qed
    then have inner: "firstFound (map (search i) (map snd kvs)) = find (\<lambda>m. get m ''id'' = i)
        (concat (map subtree (concat (map extractChildren (map snd kvs)))))"
      by (simp only: firstFound_map_find concat_map_concat)
    show ?thesis
    proof (cases "isNode v")
      case True
      have "ownChildren v = concat (map extractChildren (map snd kvs))"
        using JSObject by (simp add: ownChildren_def values'_def)
      then have "subtree v = v # concat (map subtree (concat (map extractChildren (map snd kvs))))"
        by (subst subtree.simps) simp
      moreover have "extractChildren v = [v]"
        using True by (subst extractChildren.simps) simp
      moreover have "search i v = (if get v ''id'' = i then Some v else firstFound (map (search i) (map snd kvs)))"
        using JSObject True by (subst search.simps) simp
      ultimately show ?thesis using inner by simp
    next
      case False
      have "extractChildren v = concat (map extractChildren (map snd kvs))"
        using JSObject False by (subst extractChildren.simps) simp
      moreover have "search i v = firstFound (map (search i) (map snd kvs))"
        using JSObject False by (subst search.simps) simp
      ultimately show ?thesis using inner by simp
    qed
  qed (simp_all add: search.simps extractChildren.simps isNode_def get_def)
qed

lemma extractChildren_subset: "set (concat (map subtree (extractChildren v))) \<subseteq> set (subtree v)"
proof (cases "isNode v")
  case True
  then show ?thesis by (subst extractChildren.simps) simp
next
  case False
  have "extractChildren v = ownChildren v"
    using False by (cases v) (simp_all add: extractChildren.simps ownChildren_def values'_def)
  moreover have "subtree v = v # concat (map subtree (ownChildren v))"
    by (subst subtree.simps) simp
  ultimately show ?thesis by auto
qed

lemma search_in_subtree: "search i v = Some n \<Longrightarrow> n \<in> set (subtree v)"
proof -
  assume "search i v = Some n"
  then have "n \<in> set (concat (map subtree (extractChildren v)))"
    unfolding search_find by (rule find_SomeD [THEN conjunct1])
  then show ?thesis
    using extractChildren_subset [of v] by blast
qed

lemma getNodeById_in_subtree: "getNodeById environment i = Inr n \<Longrightarrow> n \<in> set (subtree environment)"
  by (auto simp: getNodeById_def split: option.splits dest: search_in_subtree)

lemma steps_in_subtree:
  assumes "foldl
             (\<lambda>current step.
                case current of
                  Inl err \<Rightarrow> Inl err
                | Inr node \<Rightarrow>
                    (case find (\<lambda>child. is' child ''Entity'' \<and> get child ''name'' = JSString step)
                            (ownChildren node) of
                       None \<Rightarrow> Inl (UnresolvedReferenceFrom qn nm)
                     | Some next \<Rightarrow> Inr next))
             start steps = Inr n"
    and "\<And>s. start = Inr s \<Longrightarrow> s \<in> set (subtree environment)"
  shows "n \<in> set (subtree environment)"
  using assms
proof (induction steps arbitrary: start)
  case Nil
  then show ?case by simp
next
  case (Cons step steps)
  show ?case
  proof (rule Cons.IH [OF Cons.prems(1) [simplified]])
    fix s
    assume "(case start of
               Inl err \<Rightarrow> Inl err
             | Inr node \<Rightarrow>
                 (case find (\<lambda>child. is' child ''Entity'' \<and> get child ''name'' = JSString step)
                         (ownChildren node) of
                    None \<Rightarrow> Inl (UnresolvedReferenceFrom qn nm)
                  | Some next \<Rightarrow> Inr next)) = Inr s"
    then obtain node where "start = Inr node" and "s \<in> set (ownChildren node)"
      by (auto split: sum.splits option.splits dest: find_SomeD)
    then show "s \<in> set (subtree environment)"
      using Cons.prems(2) subtree_children_closed by blast
  qed
qed

lemma getNodeByQN_in_subtree:
  assumes "getNodeByQN environment this qn = Inr n" and "this \<in> set (subtree environment)"
  shows "n \<in> set (subtree environment)"
proof (cases "(case split CHR ''#'' qn of before # i # after \<Rightarrow> i | _ \<Rightarrow> []) \<noteq> []")
  case True
  then show ?thesis
    using assms(1) by (auto simp: getNodeByQN_def Let_def split: if_splits dest: getNodeById_in_subtree)
next
  case False
  then show ?thesis
    using assms by (auto simp: getNodeByQN_def Let_def split: if_splits intro: steps_in_subtree)
qed

lemma target_in_subtree: "target environment reference = Inr n \<Longrightarrow> n \<in> set (subtree environment)"
  by (auto simp: target_def split: if_splits prod.splits sum.splits
      dest: getNodeById_in_subtree getNodeByQN_in_subtree)

lemma targets_in_subtree:
  "targets environment references = Inr modules \<Longrightarrow> m \<in> set modules \<Longrightarrow> m \<in> set (subtree environment)"
  by (induction references arbitrary: modules)
     (auto split: sum.splits dest: target_in_subtree)

lemma hierarchyParents_in_subtree:
  "hierarchyParents environment module' = Inr parents \<Longrightarrow> m \<in> set parents
     \<Longrightarrow> m \<in> set (subtree environment)"
  by (auto simp: hierarchyParents_def superclassNode_def
      split: JSValue.splits sum.splits if_splits option.splits
      dest: targets_in_subtree target_in_subtree)

subsection \<open>hierarchy\<close>

text \<open>
  \<^verbatim>\<open>hierarchyExcluding\<close> and the \<^verbatim>\<open>reduce\<close> over the parents inside it. Every call
  below a module excludes one more id of the environment, which is why the recursion ends
  even on a cyclic hierarchy.
\<close>

lemma hierarchy_descends:
  assumes "get module' ''id'' \<notin> set exclude" and "hierarchyParents environment module' = Inr parents"
  shows "card (((\<lambda>n. get n ''id'') ` set (subtree environment) \<union> (\<lambda>n. get n ''id'') ` set parents)
               - set (get module' ''id'' # exclude))
         < card (insert (get module' ''id'') ((\<lambda>n. get n ''id'') ` set (subtree environment)) - set exclude)"
proof -
  let ?ids = "(\<lambda>n. get n ''id'') ` set (subtree environment)"
  have "(\<lambda>n. get n ''id'') ` set parents \<subseteq> ?ids"
    using hierarchyParents_in_subtree [OF assms(2)] by blast
  then have "(?ids \<union> (\<lambda>n. get n ''id'') ` set parents) - set (get module' ''id'' # exclude)
      \<subset> insert (get module' ''id'') ?ids - set exclude"
    using assms(1) by auto
  then show ?thesis
    by (intro psubset_card_mono) simp_all
qed

lemma hierarchy_enters:
  "card (insert (get mod' ''id'') ((\<lambda>n. get n ''id'') ` set (subtree environment)) - set exs)
   \<le> card (((\<lambda>n. get n ''id'') ` set (subtree environment) \<union> (\<lambda>n. get n ''id'') ` set (mod' # rest))
             - set exs)"
  by (intro card_mono) auto

lemma hierarchy_continues:
  "card (((\<lambda>n. get n ''id'') ` set (subtree environment) \<union> (\<lambda>n. get n ''id'') ` set rest)
           - set (get mod' ''id'' # exs))
   \<le> card (((\<lambda>n. get n ''id'') ` set (subtree environment) \<union> (\<lambda>n. get n ''id'') ` set (mod' # rest))
             - set exs)"
  by (intro card_mono) auto

function hierarchyExcluding :: "JSValue \<Rightarrow> JSValue \<Rightarrow> JSValue list \<Rightarrow> LinkError + JSValue list"
  and hierarchyReduce ::
    "JSValue \<Rightarrow> JSValue list \<Rightarrow> JSValue list \<times> JSValue list \<Rightarrow> LinkError + JSValue list \<times> JSValue list"
  where
  "hierarchyExcluding environment module' exclude =
     (if get module' ''id'' \<in> set exclude then Inr []
      else
        case hierarchyParents environment module' of
          Inl err \<Rightarrow> Inl err
        | Inr parents \<Rightarrow>
            (case hierarchyReduce environment parents ([module'], get module' ''id'' # exclude) of
               Inl err \<Rightarrow> Inl err
             | Inr (mods, exs) \<Rightarrow> Inr mods))"
| "hierarchyReduce environment [] acc = Inr acc"
| "hierarchyReduce environment (mod' # rest) (mods, exs) =
     (case hierarchyExcluding environment mod' exs of
        Inl err \<Rightarrow> Inl err
      | Inr inherited \<Rightarrow> hierarchyReduce environment rest (mods @ inherited, get mod' ''id'' # exs))"
  by pat_completeness auto


termination
  apply (relation "measures
    [\<lambda>x. case x of
       Inl (environment, module', exclude) \<Rightarrow>
         card (insert (get module' ''id'') ((\<lambda>n. get n ''id'') ` set (subtree environment)) - set exclude)
     | Inr (environment, parents, acc) \<Rightarrow>
         card (((\<lambda>n. get n ''id'') ` set (subtree environment) \<union> (\<lambda>n. get n ''id'') ` set parents)
               - set (snd acc)),
     \<lambda>x. case x of Inl call \<Rightarrow> 0 | Inr (environment, parents, acc) \<Rightarrow> Suc (length parents)]")
  subgoal by simp
  subgoal for environment module' exclude parents
    using hierarchy_descends [of module' exclude environment parents] by simp
  subgoal for environment mod' rest mods exs
    using hierarchy_enters [of mod' environment exs rest] by auto
  subgoal for environment mod' rest mods exs inherited
    using hierarchy_continues [of environment rest mod' exs] by auto
  done

declare hierarchyExcluding.simps [simp del]

definition hierarchy :: "JSValue \<Rightarrow> JSValue \<Rightarrow> LinkError + JSValue list" where
  "hierarchy environment this =
     (if \<not> is' this ''Module'' then Inl (NotAFunction ''hierarchy'')
      else hierarchyExcluding environment this [])"

subsection \<open>lookupMethod\<close>

definition lookupMethod :: "JSValue \<Rightarrow> JSValue \<Rightarrow> Name \<Rightarrow> int \<Rightarrow> LinkError + JSValue option" where
  "lookupMethod environment this name arity =
     (if \<not> is' this ''Module'' then Inl (NotAFunction ''lookupMethod'')
      else
        case hierarchy environment this of
          Inl err \<Rightarrow> Inl err
        | Inr modules \<Rightarrow>
            Inr (firstFound
                   (map (\<lambda>module'.
                           find (\<lambda>member.
                                   (truthy (get member ''body'') \<or> truthy (get member ''isNative'')) \<and>
                                   get member ''name'' = JSString name \<and>
                                   ((\<exists>parameter \<in> set (arrayOf (get member ''parameters'')).
                                       truthy (get parameter ''isVarArg'')) \<and>
                                    int (length (arrayOf (get member ''parameters''))) - 1 \<le> arity \<or>
                                    int (length (arrayOf (get member ''parameters''))) = arity))
                             (methods module'))
                      modules)))"

section \<open>Runtime state\<close>

text \<open>
  The types \<^verbatim>\<open>RuntimeObject\<close>, \<^verbatim>\<open>Frame\<close> and \<^verbatim>\<open>Evaluation\<close> are declared in the
  interpreter module; the fields below are the ones this code reads and writes. A frame
  and an evaluation may carry further fields (executor state, the environment): the
  records are extensible and every function here works on any extension. The dictionaries
  \<^verbatim>\<open>fields\<close>, \<^verbatim>\<open>locals\<close> and \<^verbatim>\<open>instances\<close> are objects used as ordered maps:
  association lists, read with \<open>map_of\<close> and written with \<open>AList.update\<close>, which
  overwrites a present key in place and appends a new one. The top of the frame stack and
  of an operand stack is the last element, as \<^verbatim>\<open>push\<close>, \<^verbatim>\<open>pop\<close> and \<^verbatim>\<open>last\<close> have it.
\<close>

type_synonym Interruption = string

record RuntimeObject =
  id' :: Id
  module :: Name
  fields' :: "(Name \<times> Id) list"
  innerValue :: JSValue

record Frame =
  locals :: "(Name \<times> Id) list"
  operandStack :: "Id list"
  resume :: "Interruption list"

record 'f Evaluation =
  instances :: "(Id \<times> RuntimeObject) list"
  frameStack :: "'f Frame_scheme list"

datatype Error = Error string | RangeError string | TypeError string

text \<open>
  Modelled from the spec: \<^verbatim>\<open>last\<close> of the extensions module, which is not among the
  sources. The spec names it among the utility collection operations and uses it for the
  top of the frame stack; on an empty array it yields \<^verbatim>\<open>undefined\<close>, here \<open>None\<close>.
\<close>

definition last' :: "'a list \<Rightarrow> 'a option" where
  "last' xs = (if xs = [] then None else Some (last xs))"

definition currentFrame :: "('f, 'e) Evaluation_scheme \<Rightarrow> 'f Frame_scheme option" where
  "currentFrame ev = last' (frameStack ev)"

definition instance' :: "('f, 'e) Evaluation_scheme \<Rightarrow> Id \<Rightarrow> Error + RuntimeObject" where
  "instance' ev i =
     (case map_of (instances ev) i of
        None \<Rightarrow> Inl (RangeError (''Access to undefined instance '' @ [CHR 0x22] @ i @ [CHR 0x22]))
      | Some response \<Rightarrow> Inr response)"

subsection \<open>Frames\<close>

definition pushOperand :: "Id \<Rightarrow> 'f Frame_scheme \<Rightarrow> 'f Frame_scheme" where
  "pushOperand i frame = frame\<lparr>operandStack := operandStack frame @ [i]\<rparr>"

text \<open>
  \<^verbatim>\<open>popOperand\<close> pops first and tests the popped value afterwards, so an empty id on top
  is removed and then reported as an empty stack.
\<close>

definition popOperand :: "'f Frame_scheme \<Rightarrow> (Error + Id) \<times> 'f Frame_scheme" where
  "popOperand frame =
     (case last' (operandStack frame) of
        None \<Rightarrow> (Inl (RangeError ''Popped empty operand stack''), frame)
      | Some response \<Rightarrow>
          (if response = [] then Inl (RangeError ''Popped empty operand stack'') else Inr response,
           frame\<lparr>operandStack := butlast (operandStack frame)\<rparr>))"

subsection \<open>createInstance\<close>

text \<open>
  \<open>DECIMAL_PRECISION\<close> is a constant of the interpreter module and \<open>uuid\<close> the id that
  the generator hands out at this call; both are parameters. \<^verbatim>\<open>toFixed\<close> throws a
  TypeError on a value that is not a number and a RangeError on a precision above 100; it
  prints \<open>-0\<close> as it prints \<open>0\<close>, and NaN and the infinities by their names.
\<close>

definition createInstance ::
  "(rat \<Rightarrow> string) \<Rightarrow> nat \<Rightarrow> Id \<Rightarrow> Name \<Rightarrow> JSValue \<Rightarrow> ('f, 'e) Evaluation_scheme
     \<Rightarrow> Error + (Id \<times> ('f, 'e) Evaluation_scheme)" where
  "createInstance N2S DECIMAL_PRECISION uuid moduleName baseInnerValue ev =
     (let chosen =
            (if moduleName = ''wollok.lang.Number'' then
               (case baseInnerValue of
                  JSNumber x \<Rightarrow>
                    if 100 < DECIMAL_PRECISION
                    then Inl (RangeError ''toFixed() digits argument must be between 0 and 100'')
                    else
                      let stringValue = toFixed N2S x DECIMAL_PRECISION
                      in Inr (''N!'' @ stringValue, Number' stringValue)
                | JSNegativeZero \<Rightarrow>
                    if 100 < DECIMAL_PRECISION
                    then Inl (RangeError ''toFixed() digits argument must be between 0 and 100'')
                    else
                      let stringValue = toFixed N2S 0 DECIMAL_PRECISION
                      in Inr (''N!'' @ stringValue, Number' stringValue)
                | JSNaN \<Rightarrow>
                    if 100 < DECIMAL_PRECISION
                    then Inl (RangeError ''toFixed() digits argument must be between 0 and 100'')
                    else Inr (''N!'' @ ''NaN'', Number' ''NaN'')
                | JSInfinity \<Rightarrow>
                    if 100 < DECIMAL_PRECISION
                    then Inl (RangeError ''toFixed() digits argument must be between 0 and 100'')
                    else Inr (''N!'' @ ''Infinity'', Number' ''Infinity'')
                | JSNegativeInfinity \<Rightarrow>
                    if 100 < DECIMAL_PRECISION
                    then Inl (RangeError ''toFixed() digits argument must be between 0 and 100'')
                    else Inr (''N!'' @ ''-Infinity'', Number' ''-Infinity'')
                | _ \<Rightarrow> Inl (TypeError ''innerValue.toFixed is not a function''))
             else if moduleName = ''wollok.lang.String'' then
               Inr (''S!'' @ ToString N2S baseInnerValue, baseInnerValue)
             else Inr (uuid, baseInnerValue))
      in case chosen of
           Inl err \<Rightarrow> Inl err
         | Inr (i, inner) \<Rightarrow>
             Inr (i, ev\<lparr>instances :=
                        AList.update i \<lparr>id' = i, module = moduleName, fields' = [], innerValue = inner\<rparr>
                          (instances ev)\<rparr>))"

subsection \<open>interrupt\<close>

text \<open>
  The do-while loop: pop, look at the new top, and go on while there is one that does not
  resume the interruption. The first pop happens before any frame is examined.
\<close>

function popFrames :: "Interruption \<Rightarrow> 'f Frame_scheme list \<Rightarrow> 'f Frame_scheme list" where
  "popFrames interruption stack =
     (let stack' = butlast stack
      in case last' stack' of
           None \<Rightarrow> stack'
         | Some nextFrame \<Rightarrow>
             if interruption \<notin> set (resume nextFrame) then popFrames interruption stack'
             else stack')"
  by pat_completeness auto
termination
proof (relation "measure (\<lambda>(i, stack). length stack)")
  fix interruption :: Interruption and stack stack' :: "'f Frame_scheme list" and nextFrame
  assume "stack' = butlast stack" and "last' stack' = Some nextFrame"
  then have "stack \<noteq> []"
    by (auto simp: last'_def)
  then show "((interruption, stack'), (interruption, stack)) \<in> measure (\<lambda>(i, stack). length stack)"
    using \<open>stack' = butlast stack\<close> by simp
qed simp

declare popFrames.simps [simp del]

text \<open>
  The detail of the message of an unhandled exception:
  \<^verbatim>\<open>value.fields.message && this.instance(value.fields.message).innerValue || value.innerValue\<close>.
  An absent or empty \<^verbatim>\<open>message\<close> id, and a message instance whose inner value is falsy,
  fall through to the interrupted instance's own inner value.
\<close>

definition exceptionDetail :: "('f, 'e) Evaluation_scheme \<Rightarrow> RuntimeObject \<Rightarrow> Error + JSValue" where
  "exceptionDetail ev val =
     (case map_of (fields' val) ''message'' of
        None \<Rightarrow> Inr (innerValue val)
      | Some messageId \<Rightarrow>
          if messageId = [] then Inr (innerValue val)
          else (case instance' ev messageId of
                  Inl err \<Rightarrow> Inl err
                | Inr messageInstance \<Rightarrow>
                    Inr (if truthy (innerValue messageInstance) then innerValue messageInstance
                         else innerValue val)))"

text \<open>
  \<open>interrupt\<close> mutates the evaluation and may throw after it has popped: the result is
  the evaluation as it is left, with the error on the left when one is thrown.
\<close>

definition interrupt ::
  "(rat \<Rightarrow> string) \<Rightarrow> Interruption \<Rightarrow> Id \<Rightarrow> ('f, 'e) Evaluation_scheme
     \<Rightarrow> (Error \<times> ('f, 'e) Evaluation_scheme) + ('f, 'e) Evaluation_scheme" where
  "interrupt N2S interruption valueId ev =
     (let stack = popFrames interruption (frameStack ev);
          ev' = ev\<lparr>frameStack := stack\<rparr>
      in case last' stack of
           None \<Rightarrow>
             (case instance' ev' valueId of
                Inl err \<Rightarrow> Inl (err, ev')
              | Inr val \<Rightarrow>
                  (case (if interruption = ''exception''
                         then (case exceptionDetail ev' val of
                                 Inl err \<Rightarrow> Inl err
                               | Inr detail \<Rightarrow> Inr (module val @ '': '' @ ToString N2S detail))
                         else Inr '''') of
                     Inl err \<Rightarrow> Inl (err, ev')
                   | Inr message \<Rightarrow>
                       Inl (Error (''Unhandled '' @ [CHR 0x22] @ interruption @ [CHR 0x22]
                                   @ '' interruption: ['' @ valueId @ ''] '' @ message), ev')))
         | Some nextFrame \<Rightarrow>
             Inr (ev'\<lparr>frameStack :=
                       butlast stack @
                       [pushOperand valueId
                          (nextFrame\<lparr>resume := filter (\<lambda>elem. elem \<noteq> interruption) (resume nextFrame)\<rparr>)]\<rparr>))"


section \<open>Evaluation.copy over an explicit store\<close>

text \<open>
  \<^verbatim>\<open>copy\<close> is about which JavaScript objects are shared between an evaluation and its
  clone, so the objects it touches live in a store here. An address is an index into the
  store and a new object is appended, as \<^verbatim>\<open>{...}\<close> and \<^verbatim>\<open>[...]\<close> always create a
  new object. The store holds the containers \<^verbatim>\<open>copy\<close> distinguishes: the instance table, the
  instance objects, their \<^verbatim>\<open>fields\<close> objects, the frame stack array, the frame objects and
  their \<^verbatim>\<open>locals\<close>, \<^verbatim>\<open>operandStack\<close> and \<^verbatim>\<open>resume\<close>. Ids, names and inner values are
  kept inside these objects as values: \<^verbatim>\<open>copy\<close> passes them on unchanged. The evaluation
  object itself is a pair of references, and the properties that the spreads
  \<^verbatim>\<open>...this\<close> and \<^verbatim>\<open>...frame\<close> carry over by reference (the environment, a frame's
  instructions) are left out.
\<close>

type_synonym address = nat

datatype HeapObject =
    IdArray "Id list"
  | IdDictionary "(Name \<times> Id) list"
  | FrameObject address address address
  | InstanceObject Id Name address JSValue
  | FrameArray "address list"
  | InstanceTable "(Id \<times> address) list"

type_synonym Heap = "HeapObject list"

record EvaluationObject =
  instancesRef :: address
  frameStackRef :: address

definition deref :: "Heap \<Rightarrow> address \<Rightarrow> HeapObject option" where
  "deref heap a = (if a < length heap then Some (heap ! a) else None)"

definition alloc :: "Heap \<Rightarrow> HeapObject \<Rightarrow> Heap \<times> address" where
  "alloc heap obj = (heap @ [obj], length heap)"

text \<open>
  \<^verbatim>\<open>{ ...this.instance(name), fields: { ...this.instance(name).fields } }\<close>: a new fields
  object with the same entries, then a new instance object that refers to it. A reference
  that does not lead to an object of the expected shape gives \<^term>\<open>None\<close>.
\<close>

definition copyInstance :: "Heap \<Rightarrow> address \<Rightarrow> (Heap \<times> address) option" where
  "copyInstance heap a =
     (case deref heap a of
        Some (InstanceObject i moduleName fieldsRef inner) \<Rightarrow>
          (case deref heap fieldsRef of
             Some (IdDictionary entries) \<Rightarrow>
               (case alloc heap (IdDictionary entries) of
                  (heap1, fieldsClone) \<Rightarrow>
                    Some (alloc heap1 (InstanceObject i moduleName fieldsClone inner)))
           | _ \<Rightarrow> None)
      | _ \<Rightarrow> None)"

text \<open>
  The \<^verbatim>\<open>reduce\<close> over \<^verbatim>\<open>keys(this.instances)\<close>. An object has one entry for each
  of its keys, so \<^verbatim>\<open>this.instance(name)\<close> is the instance of the entry at hand, and it
  is an object, which \<^verbatim>\<open>instance\<close> never rejects. The accumulator objects created on
  the way are never referred to again; only the last one is allocated, by \<^verbatim>\<open>copy\<close> below.
\<close>

fun copyInstances :: "Heap \<Rightarrow> (Id \<times> address) list \<Rightarrow> (Heap \<times> (Id \<times> address) list) option" where
  "copyInstances heap [] = Some (heap, [])"
| "copyInstances heap ((name, a) # rest) =
     (case copyInstance heap a of
        None \<Rightarrow> None
      | Some (heap1, clone) \<Rightarrow>
          (case copyInstances heap1 rest of
             None \<Rightarrow> None
           | Some (heap2, clones) \<Rightarrow> Some (heap2, (name, clone) # clones)))"

text \<open>
  \<^verbatim>\<open>{ ...frame, locals: { ...frame.locals }, operandStack: [...frame.operandStack],
  resume: [...frame.resume] }\<close>.
\<close>

definition copyFrame :: "Heap \<Rightarrow> address \<Rightarrow> (Heap \<times> address) option" where
  "copyFrame heap a =
     (case deref heap a of
        Some (FrameObject localsRef operandStackRef resumeRef) \<Rightarrow>
          (case (deref heap localsRef, deref heap operandStackRef, deref heap resumeRef) of
             (Some (IdDictionary ls), Some (IdArray os), Some (IdArray rs)) \<Rightarrow>
               (case alloc heap (IdDictionary ls) of
                  (heap1, localsClone) \<Rightarrow>
                    (case alloc heap1 (IdArray os) of
                       (heap2, operandStackClone) \<Rightarrow>
                         (case alloc heap2 (IdArray rs) of
                            (heap3, resumeClone) \<Rightarrow>
                              Some (alloc heap3
                                (FrameObject localsClone operandStackClone resumeClone)))))
           | _ \<Rightarrow> None)
      | _ \<Rightarrow> None)"

fun copyFrames :: "Heap \<Rightarrow> address list \<Rightarrow> (Heap \<times> address list) option" where
  "copyFrames heap [] = Some (heap, [])"
| "copyFrames heap (a # rest) =
     (case copyFrame heap a of
        None \<Rightarrow> None
      | Some (heap1, clone) \<Rightarrow>
          (case copyFrames heap1 rest of
             None \<Rightarrow> None
           | Some (heap2, clones) \<Rightarrow> Some (heap2, clone # clones)))"

definition copy :: "Heap \<Rightarrow> EvaluationObject \<Rightarrow> (Heap \<times> EvaluationObject) option" where
  "copy heap this =
     (case (deref heap (instancesRef this), deref heap (frameStackRef this)) of
        (Some (InstanceTable table), Some (FrameArray frames)) \<Rightarrow>
          (case copyInstances heap table of
             None \<Rightarrow> None
           | Some (heap1, instanceClones) \<Rightarrow>
               (case alloc heap1 (InstanceTable instanceClones) of
                  (heap2, tableClone) \<Rightarrow>
                    (case copyFrames heap2 frames of
                       None \<Rightarrow> None
                     | Some (heap3, frameClones) \<Rightarrow>
                         (case alloc heap3 (FrameArray frameClones) of
                            (heap4, stackClone) \<Rightarrow>
                              Some (heap4,
                                \<lparr>instancesRef = tableClone, frameStackRef = stackClone\<rparr>)))))
      | _ \<Rightarrow> None)"

subsection \<open>What an evaluation reference shows\<close>

text \<open>
  Everything that can be read through an evaluation reference, as the evaluation value of
  the previous section: the instance table with the fields of every instance, and the frame
  stack with the locals, operand stack and resume set of every frame.
\<close>

definition viewInstance :: "Heap \<Rightarrow> address \<Rightarrow> RuntimeObject option" where
  "viewInstance heap a =
     (case deref heap a of
        Some (InstanceObject i moduleName fieldsRef inner) \<Rightarrow>
          (case deref heap fieldsRef of
             Some (IdDictionary entries) \<Rightarrow>
               Some \<lparr>id' = i, module = moduleName, fields' = entries, innerValue = inner\<rparr>
           | _ \<Rightarrow> None)
      | _ \<Rightarrow> None)"

definition viewInstances :: "Heap \<Rightarrow> (Id \<times> address) list \<Rightarrow> (Id \<times> RuntimeObject) list option" where
  "viewInstances heap table =
     those (map (\<lambda>(name, a). map_option (Pair name) (viewInstance heap a)) table)"

definition viewFrame :: "Heap \<Rightarrow> address \<Rightarrow> Frame option" where
  "viewFrame heap a =
     (case deref heap a of
        Some (FrameObject localsRef operandStackRef resumeRef) \<Rightarrow>
          (case (deref heap localsRef, deref heap operandStackRef, deref heap resumeRef) of
             (Some (IdDictionary ls), Some (IdArray os), Some (IdArray rs)) \<Rightarrow>
               Some \<lparr>locals = ls, operandStack = os, resume = rs\<rparr>
           | _ \<Rightarrow> None)
      | _ \<Rightarrow> None)"

definition viewFrames :: "Heap \<Rightarrow> address list \<Rightarrow> Frame list option" where
  "viewFrames heap frames = those (map (viewFrame heap) frames)"

definition view :: "Heap \<Rightarrow> EvaluationObject \<Rightarrow> unit Evaluation option" where
  "view heap this =
     (case (deref heap (instancesRef this), deref heap (frameStackRef this)) of
        (Some (InstanceTable table), Some (FrameArray frames)) \<Rightarrow>
          (case (viewInstances heap table, viewFrames heap frames) of
             (Some objs, Some fs) \<Rightarrow> Some \<lparr>instances = objs, frameStack = fs\<rparr>
           | _ \<Rightarrow> None)
      | _ \<Rightarrow> None)"

subsection \<open>Mutations through an evaluation reference\<close>

text \<open>
  The writes a holder of an evaluation reference can make to the frames and instances it
  reaches. An in-place change of an array or of a dictionary leaves the object with some new
  content, whatever the operation was (\<^verbatim>\<open>push\<close> and \<^verbatim>\<open>pop\<close> of \<^verbatim>\<open>pushOperand\<close> and
  \<^verbatim>\<open>popOperand\<close>, an assignment to a local or to a field), so such a change is given by the
  content it leaves. \<^verbatim>\<open>AssignResume\<close> is the assignment \<^verbatim>\<open>frame.resume = ...\<close> of
  \<^verbatim>\<open>interrupt\<close>, which stores a new array in the frame object. The frame is chosen by its
  index in the frame stack and the instance by its id, as \<^verbatim>\<open>instance(id)\<close> does. A
  mutation whose target cannot be reached leaves the store as it is.
\<close>

datatype Mutation =
    WriteOperandStack nat "Id list"
  | WriteLocals nat "(Name \<times> Id) list"
  | WriteResume nat "Interruption list"
  | AssignResume nat "Interruption list"
  | WriteFields Id "(Name \<times> Id) list"

definition frameAt :: "Heap \<Rightarrow> EvaluationObject \<Rightarrow> nat \<Rightarrow> (address \<times> address \<times> address \<times> address) option" where
  "frameAt heap this k =
     (case deref heap (frameStackRef this) of
        Some (FrameArray frames) \<Rightarrow>
          if k < length frames then
            (case deref heap (frames ! k) of
               Some (FrameObject localsRef operandStackRef resumeRef) \<Rightarrow>
                 Some (frames ! k, localsRef, operandStackRef, resumeRef)
             | _ \<Rightarrow> None)
          else None
      | _ \<Rightarrow> None)"

definition fieldsAt :: "Heap \<Rightarrow> EvaluationObject \<Rightarrow> Id \<Rightarrow> address option" where
  "fieldsAt heap this i =
     (case deref heap (instancesRef this) of
        Some (InstanceTable table) \<Rightarrow>
          (case map_of table i of
             Some a \<Rightarrow>
               (case deref heap a of
                  Some (InstanceObject i' moduleName fieldsRef inner) \<Rightarrow> Some fieldsRef
                | _ \<Rightarrow> None)
           | None \<Rightarrow> None)
      | _ \<Rightarrow> None)"

definition writeArray :: "Heap \<Rightarrow> address \<Rightarrow> Id list \<Rightarrow> Heap" where
  "writeArray heap a ids =
     (case deref heap a of Some (IdArray old) \<Rightarrow> heap[a := IdArray ids] | _ \<Rightarrow> heap)"

definition writeDictionary :: "Heap \<Rightarrow> address \<Rightarrow> (Name \<times> Id) list \<Rightarrow> Heap" where
  "writeDictionary heap a entries =
     (case deref heap a of
        Some (IdDictionary old) \<Rightarrow> heap[a := IdDictionary entries]
      | _ \<Rightarrow> heap)"

fun mutate :: "Heap \<Rightarrow> EvaluationObject \<Rightarrow> Mutation \<Rightarrow> Heap" where
  "mutate heap this (WriteOperandStack k ids) =
     (case frameAt heap this k of
        Some (frame, localsRef, operandStackRef, resumeRef) \<Rightarrow>
          writeArray heap operandStackRef ids
      | None \<Rightarrow> heap)"
| "mutate heap this (WriteLocals k entries) =
     (case frameAt heap this k of
        Some (frame, localsRef, operandStackRef, resumeRef) \<Rightarrow>
          writeDictionary heap localsRef entries
      | None \<Rightarrow> heap)"
| "mutate heap this (WriteResume k kinds) =
     (case frameAt heap this k of
        Some (frame, localsRef, operandStackRef, resumeRef) \<Rightarrow>
          writeArray heap resumeRef kinds
      | None \<Rightarrow> heap)"
| "mutate heap this (AssignResume k kinds) =
     (case frameAt heap this k of
        Some (frame, localsRef, operandStackRef, resumeRef) \<Rightarrow>
          (case alloc heap (IdArray kinds) of
             (heap1, fresh) \<Rightarrow> heap1[frame := FrameObject localsRef operandStackRef fresh])
      | None \<Rightarrow> heap)"
| "mutate heap this (WriteFields i entries) =
     (case fieldsAt heap this i of
        Some fieldsRef \<Rightarrow> writeDictionary heap fieldsRef entries
      | None \<Rightarrow> heap)"

text \<open>Mutations applied one after the other, each through the reference it comes with.\<close>

fun mutateAll :: "Heap \<Rightarrow> (EvaluationObject \<times> Mutation) list \<Rightarrow> Heap" where
  "mutateAll heap [] = heap"
| "mutateAll heap ((this, m) # rest) = mutateAll (mutate heap this m) rest"

subsection \<open>The objects an evaluation reference reaches\<close>

definition instanceFootprint :: "Heap \<Rightarrow> address \<Rightarrow> address list" where
  "instanceFootprint heap a =
     (case deref heap a of
        Some (InstanceObject i moduleName fieldsRef inner) \<Rightarrow> [a, fieldsRef]
      | _ \<Rightarrow> [a])"

definition frameFootprint :: "Heap \<Rightarrow> address \<Rightarrow> address list" where
  "frameFootprint heap a =
     (case deref heap a of
        Some (FrameObject localsRef operandStackRef resumeRef) \<Rightarrow>
          [a, localsRef, operandStackRef, resumeRef]
      | _ \<Rightarrow> [a])"

definition footprint :: "Heap \<Rightarrow> EvaluationObject \<Rightarrow> address list" where
  "footprint heap this =
     instancesRef this # frameStackRef this #
     (case deref heap (instancesRef this) of
        Some (InstanceTable table) \<Rightarrow> concat (map (\<lambda>(name, a). instanceFootprint heap a) table)
      | _ \<Rightarrow> []) @
     (case deref heap (frameStackRef this) of
        Some (FrameArray frames) \<Rightarrow> concat (map (frameFootprint heap) frames)
      | _ \<Rightarrow> [])"

text \<open>
  A store with one instance and one frame, and the evaluation object that refers to them.
\<close>

definition exampleHeap :: Heap where
  "exampleHeap =
     [InstanceTable [(''x'', 1)],
      InstanceObject ''x'' ''E'' 2 JSNull,
      IdDictionary [(''message'', ''y'')],
      FrameArray [4],
      FrameObject 5 6 7,
      IdDictionary [],
      IdArray [''a''],
      IdArray [''exception'']]"

definition exampleEvaluation :: EvaluationObject where
  "exampleEvaluation = \<lparr>instancesRef = 0, frameStackRef = 3\<rparr>"

text \<open>
  Two evaluation references are separated when everything either of them reaches is in the
  store and nothing is reached by both.
\<close>

definition separated :: "Heap \<Rightarrow> EvaluationObject \<Rightarrow> EvaluationObject \<Rightarrow> bool" where
  "separated heap a b \<longleftrightarrow>
     list_all (\<lambda>x. x < length heap \<and> x \<notin> set (footprint heap b)) (footprint heap a) \<and>
     list_all (\<lambda>x. x < length heap) (footprint heap b)"

definition exampleView :: "unit Evaluation" where
  "exampleView =
     \<lparr>instances =
        [(''x'', \<lparr>id' = ''x'', module = ''E'', fields' = [(''message'', ''y'')],
                   innerValue = JSNull\<rparr>)],
      frameStack = [\<lparr>locals = [], operandStack = [''a''], resume = [''exception'']\<rparr>]\<rparr>"

subsection \<open>Vocabulary of the claims\<close>

text \<open>\<^verbatim>\<open>String.prototype.startsWith\<close> and \<^verbatim>\<open>includes\<close>: what "the message contains" means.\<close>

fun startsWith :: "string \<Rightarrow> string \<Rightarrow> bool" where
  "startsWith s [] = True"
| "startsWith [] (c # cs) = False"
| "startsWith (d # ds) (c # cs) = (d = c \<and> startsWith ds cs)"

fun includes' :: "string \<Rightarrow> string \<Rightarrow> bool" where
  "includes' [] sub = (sub = [])"
| "includes' (c # cs) sub = (startsWith (c # cs) sub \<or> includes' cs sub)"

text \<open>
  The value a number rounds to at \<open>p\<close> decimals, as \<open>toFixed\<close> rounds it: the magnitude
  to the nearest multiple of \<open>10^-p\<close>, the larger one on a tie, with the sign put back.
\<close>

definition roundToPrecision :: "nat \<Rightarrow> rat \<Rightarrow> rat" where
  "roundToPrecision p v = (if v < 0 then - 1 else 1) * of_int \<lfloor>\<bar>v\<bar> * 10 ^ p + 1 / 2\<rfloor> / 10 ^ p"

subsection \<open>Vocabulary of the claims about linked nodes\<close>

text \<open>
  The spec's arity predicate, in its words: with \<open>n\<close> parameters, match iff (varargs and
  \<open>n - 1 \<le> arity\<close>) or \<open>n = arity\<close>.
\<close>

definition arityMatch :: "bool \<Rightarrow> nat \<Rightarrow> int \<Rightarrow> bool" where
  "arityMatch varargs n arity = (varargs \<and> int n - 1 \<le> arity \<or> int n = arity)"

text \<open>
  Example environments. A package \<^verbatim>\<open>p\<close> with the mixins \<^verbatim>\<open>M3\<close>, \<^verbatim>\<open>M1\<close> and \<^verbatim>\<open>M2\<close>,
  where \<^verbatim>\<open>M1\<close> and \<^verbatim>\<open>M2\<close> both mix \<^verbatim>\<open>M3\<close> in, and a class \<^verbatim>\<open>C\<close> that mixes \<^verbatim>\<open>M1\<close> and
  \<^verbatim>\<open>M2\<close> in; and a package with a class \<^verbatim>\<open>M\<close> that declares \<^verbatim>\<open>foo(a, *b)\<close> with a body.
\<close>

definition reference :: "Id \<Rightarrow> Name \<Rightarrow> JSValue" where
  "reference i name =
     JSObject [(''kind'', JSString ''Reference''), (''id'', JSString i), (''name'', JSString name),
               (''scope'', JSObject [(''p'', JSString ''p'')])]"

definition mixin :: "Id \<Rightarrow> Name \<Rightarrow> JSValue list \<Rightarrow> JSValue" where
  "mixin i name mixins =
     JSObject [(''kind'', JSString ''Mixin''), (''id'', JSString i), (''name'', JSString name),
               (''mixins'', JSArray mixins), (''members'', JSArray [])]"

definition diamondClass :: JSValue where
  "diamondClass =
     JSObject [(''kind'', JSString ''Class''), (''id'', JSString ''c''), (''name'', JSString ''C''),
               (''mixins'', JSArray [reference ''r3'' ''p.M1'', reference ''r4'' ''p.M2'']),
               (''superclass'', JSNull), (''members'', JSArray [])]"

definition diamondEnvironment :: JSValue where
  "diamondEnvironment =
     JSObject [(''kind'', JSString ''Environment''), (''id'', JSString ''e''),
               (''members'', JSArray
                  [JSObject [(''kind'', JSString ''Package''), (''id'', JSString ''p''), (''name'', JSString ''p''),
                             (''members'', JSArray
                                [mixin ''m3'' ''M3'' [],
                                 mixin ''m1'' ''M1'' [reference ''r1'' ''p.M3''],
                                 mixin ''m2'' ''M2'' [reference ''r2'' ''p.M3''],
                                 diamondClass])]])]"


definition fooMethod :: JSValue where
  "fooMethod =
     JSObject [(''kind'', JSString ''Method''), (''id'', JSString ''foo''), (''name'', JSString ''foo''),
               (''isNative'', JSBoolean False),
               (''parameters'', JSArray
                  [JSObject [(''kind'', JSString ''Parameter''), (''id'', JSString ''a''),
                             (''name'', JSString ''a''), (''isVarArg'', JSBoolean False)],
                   JSObject [(''kind'', JSString ''Parameter''), (''id'', JSString ''b''),
                             (''name'', JSString ''b''), (''isVarArg'', JSBoolean True)]]),
               (''body'', JSObject [(''kind'', JSString ''Body''), (''id'', JSString ''body''),
                                    (''sentences'', JSArray [])])]"

definition fooModule :: JSValue where
  "fooModule =
     JSObject [(''kind'', JSString ''Class''), (''id'', JSString ''m''), (''name'', JSString ''M''),
               (''mixins'', JSArray []), (''superclass'', JSNull), (''members'', JSArray [fooMethod])]"

definition fooEnvironment :: JSValue where
  "fooEnvironment =
     JSObject [(''kind'', JSString ''Environment''), (''id'', JSString ''e''),
               (''members'', JSArray
                  [JSObject [(''kind'', JSString ''Package''), (''id'', JSString ''p''), (''name'', JSString ''p''),
                             (''members'', JSArray [fooModule])]])]"

text \<open>
  What the round trip of fully qualified names needs of an environment. Ids are unique
  when no two of the environment and its descendants share an id. A plain name is a
  non-empty string without \<^verbatim>\<open>.\<close> and \<^verbatim>\<open>#\<close>. A package path below a node is a chain of
  entities with plain names, each the first entity child of its predecessor with its
  name, and each but the last a package; an entity path starts at the environment, whose
  children \<^verbatim>\<open>getNodeByFQN\<close> searches by name alone.
\<close>

definition uniqueIds :: "JSValue \<Rightarrow> bool" where
  "uniqueIds environment =
     distinct (map (\<lambda>n. get n ''id'') (environment # ownDescendants environment None))"













subsection \<open>Vocabulary of the claim about reduce\<close>

text \<open>
  The memo tables are coherent for the subtree of a node when every node of the subtree
  answers \<^verbatim>\<open>children()\<close> from its own property values, now and later: an entry that a node
  of the subtree can read holds that node's own children, and two nodes of the subtree that
  share a closure and an id, and so an entry, have the same children. Tables that are empty
  for the closures of a tree whose nodes each hold a closure of their own are coherent, and
  so are the tables of a tree that has not been rewritten since its nodes were built.
\<close>

definition coherent :: "Caches \<Rightarrow> JSValue \<Rightarrow> bool" where
  "coherent caches this \<longleftrightarrow>
     (\<forall>n \<in> set (subtree this). truthy (get n ''id'') \<longrightarrow>
        (case caches (get n ''children'') (get n ''id'') of
           None \<Rightarrow> True
         | Some cached \<Rightarrow> cached = ownChildren n) \<and>
        (\<forall>m \<in> set (subtree this).
           get m ''children'' = get n ''children'' \<and> get m ''id'' = get n ''id''
             \<longrightarrow> ownChildren m = ownChildren n))"

text \<open>A state in which no closure has memoised anything.\<close>

definition noCaches :: Caches where
  "noCaches = (\<lambda>closure. Map.empty)"

text \<open>
  A node with an id and a closure of its own over two leaves, and the node that a spread
  makes of it with an empty body: the copy carries the id and the closure along.
\<close>

definition memoLeaf :: "string \<Rightarrow> JSValue" where
  "memoLeaf i =
     JSObject [(''kind'', JSString ''Self''), (''id'', JSString i),
               (''children'', JSFunction (''children of '' @ i))]"

definition memoBody :: JSValue where
  "memoBody =
     JSObject [(''kind'', JSString ''Body''), (''id'', JSString ''b''),
               (''children'', JSFunction ''children of b''),
               (''sentences'', JSArray [memoLeaf ''s1'', memoLeaf ''s2''])]"

definition rewrittenBody :: JSValue where
  "rewrittenBody =
     JSObject [(''kind'', JSString ''Body''), (''id'', JSString ''b''),
               (''children'', JSFunction ''children of b''),
               (''sentences'', JSArray [])]"

section \<open>Properties of the runtime state\<close>

subsection \<open>The unwinding loop\<close>

lemma popFrames_snoc:
  "popFrames i (fs @ [t]) =
     (if fs = [] then [] else if i \<in> set (resume (last fs)) then fs else popFrames i fs)"
  by (subst popFrames.simps) (simp add: last'_def)

lemma popFrames_Nil: "popFrames i [] = []"
  by (subst popFrames.simps) (simp add: last'_def)

lemma popFrames_to_handler:
  assumes "i \<in> set (resume h)" and "\<forall>f \<in> set mid. i \<notin> set (resume f)"
  shows "popFrames i (lower @ [h] @ mid @ [topFrame]) = lower @ [h]"
  using assms(2)
proof (induction mid arbitrary: topFrame rule: rev_induct)
  case Nil
  have "popFrames i ((lower @ [h]) @ [topFrame]) = lower @ [h]"
    using assms(1) by (subst popFrames_snoc) simp
  then show ?case by simp
next
  case (snoc a mid)
  have "popFrames i ((lower @ [h] @ mid @ [a]) @ [topFrame]) = popFrames i (lower @ [h] @ mid @ [a])"
    using snoc.prems by (subst popFrames_snoc) simp
  also have "\<dots> = lower @ [h]"
    using snoc by simp
  finally show ?case by simp
qed

lemma popFrames_result:
  "popFrames i stack = [] \<and> (\<forall>f \<in> set (butlast stack). i \<notin> set (resume f)) \<or>
   (\<exists>lower h mid topFrame. stack = lower @ [h] @ mid @ [topFrame] \<and> i \<in> set (resume h) \<and>
      (\<forall>f \<in> set mid. i \<notin> set (resume f)) \<and> popFrames i stack = lower @ [h])"
proof (induction stack rule: rev_induct)
  case Nil
  then show ?case by (simp add: popFrames_Nil)
next
  case (snoc t fs)
  show ?case
  proof (cases fs rule: rev_cases)
    case Nil
    have "popFrames i ([] @ [t]) = []"
      by (subst popFrames_snoc) simp
    then show ?thesis using Nil by simp
  next
    case fs: (snoc fs' l)
    show ?thesis
    proof (cases "i \<in> set (resume l)")
      case True
      have "popFrames i ((fs' @ [l]) @ [t]) = fs' @ [l]"
        using True by (subst popFrames_snoc) simp
      moreover have "(fs' @ [l]) @ [t] = fs' @ [l] @ [] @ [t]"
        by simp
      ultimately have "\<exists>lower h mid topFrame. fs @ [t] = lower @ [h] @ mid @ [topFrame] \<and>
          i \<in> set (resume h) \<and> (\<forall>f \<in> set mid. i \<notin> set (resume f)) \<and>
          popFrames i (fs @ [t]) = lower @ [h]"
        using True unfolding fs
        by (intro exI [of _ fs'] exI [of _ l] exI [of _ "[]"] exI [of _ t]) simp
      then show ?thesis ..
    next
      case False
      have step: "popFrames i (fs @ [t]) = popFrames i fs"
        unfolding fs using False by (subst popFrames_snoc) simp
      from snoc.IH show ?thesis
      proof
        assume "popFrames i fs = [] \<and> (\<forall>f \<in> set (butlast fs). i \<notin> set (resume f))"
        then show ?thesis
          using step False by (auto simp: fs butlast_append)
      next
        assume "\<exists>lower h mid topFrame. fs = lower @ [h] @ mid @ [topFrame] \<and> i \<in> set (resume h) \<and>
                  (\<forall>f \<in> set mid. i \<notin> set (resume f)) \<and> popFrames i fs = lower @ [h]"
        then obtain lower h mid topFrame where
          fs': "fs = lower @ [h] @ mid @ [topFrame]" and h: "i \<in> set (resume h)"
          and mid: "\<forall>f \<in> set mid. i \<notin> set (resume f)" and r: "popFrames i fs = lower @ [h]"
          by blast
        have "l = topFrame" using fs fs' by simp
        then have "\<forall>f \<in> set (mid @ [topFrame]). i \<notin> set (resume f)"
          using mid False by simp
        moreover have "fs @ [t] = lower @ [h] @ (mid @ [topFrame]) @ [t]"
          using fs' by simp
        moreover have "popFrames i (fs @ [t]) = lower @ [h]"
          using step r by simp
        ultimately have "\<exists>lower h mid topFrame. fs @ [t] = lower @ [h] @ mid @ [topFrame] \<and>
          i \<in> set (resume h) \<and> (\<forall>f \<in> set mid. i \<notin> set (resume f)) \<and>
          popFrames i (fs @ [t]) = lower @ [h]"
          using h by (intro exI [of _ lower] exI [of _ h] exI [of _ "mid @ [topFrame]"] exI [of _ t]) simp
        then show ?thesis ..
      qed
    qed
  qed
qed

lemma popFrames_unhandled:
  assumes "\<forall>f \<in> set (butlast stack). i \<notin> set (resume f)"
  shows "popFrames i stack = []"
proof -
  have "\<not> (\<exists>lower h mid topFrame. stack = lower @ [h] @ mid @ [topFrame] \<and> i \<in> set (resume h))"
  proof
    assume "\<exists>lower h mid topFrame. stack = lower @ [h] @ mid @ [topFrame] \<and> i \<in> set (resume h)"
    then obtain lower h mid topFrame where s: "stack = (lower @ [h] @ mid) @ [topFrame]"
      and h: "i \<in> set (resume h)" by auto
    have "h \<in> set (butlast stack)" unfolding s butlast_snoc by simp
    with assms h show False by blast
  qed
  with popFrames_result [of i stack] show ?thesis by blast
qed

text \<open>
  Claim C3, as the code has it. The handling frame has to lie strictly below the frame on
  top. When the frame stack is some lower frames, then a frame whose resume list holds the
  interruption, then frames that do not resume it, then the frame on top,
  \<open>interrupt\<close> pops down to that handling frame, removes the interruption from its
  resume list, pushes the value id on its operand stack and leaves the lower frames as
  they were. With the stack \<open>[F1, F2, F3]\<close> where only \<open>F2\<close> resumes
  \<open>exception\<close>, the result is \<open>[F1, F2]\<close> with \<open>F2\<close>'s resume list empty and \<open>X\<close>
  on top of its operand stack.
\<close>

theorem interrupt_unwinds_to_handler:
  assumes "frameStack ev = lower @ [handler] @ mid @ [topFrame]"
    and "interruption \<in> set (resume handler)"
    and "\<forall>f \<in> set mid. interruption \<notin> set (resume f)"
  shows "interrupt N2S interruption valueId ev =
           Inr (ev\<lparr>frameStack :=
                    lower @ [handler\<lparr>resume := filter (\<lambda>elem. elem \<noteq> interruption) (resume handler),
                                      operandStack := operandStack handler @ [valueId]\<rparr>]\<rparr>)"
  using popFrames_to_handler [OF assms(2,3), of lower topFrame] assms(1)
  by (simp add: interrupt_def last'_def pushOperand_def)

theorem interrupt_unwinds_to_handler_witness:
  "interrupt (\<lambda>q. []) ''exception'' ''X''
     \<lparr>instances = [],
      frameStack = [\<lparr>locals = [], operandStack = [], resume = []\<rparr>,
                    \<lparr>locals = [], operandStack = [''a''], resume = [''exception'']\<rparr>,
                    \<lparr>locals = [], operandStack = [], resume = []\<rparr>]\<rparr>
   = Inr \<lparr>instances = [],
          frameStack = [\<lparr>locals = [], operandStack = [], resume = []\<rparr>,
                        \<lparr>locals = [], operandStack = [''a'', ''X''], resume = []\<rparr>]\<rparr>"
  using interrupt_unwinds_to_handler
    [of "\<lparr>instances = [],
      frameStack = [\<lparr>locals = [], operandStack = [], resume = []\<rparr>,
                    \<lparr>locals = [], operandStack = [''a''], resume = [''exception'']\<rparr>,
                    \<lparr>locals = [], operandStack = [], resume = []\<rparr>]\<rparr>"
        "[\<lparr>locals = [], operandStack = [], resume = []\<rparr>]"
        "\<lparr>locals = [], operandStack = [''a''], resume = [''exception'']\<rparr>"
        "[]" "\<lparr>locals = [], operandStack = [], resume = []\<rparr>" "''exception''" "\<lambda>q. []" "''X''"]
  by simp

text \<open>
  The claim as stated asks only for lower frames and then a frame that resumes the
  interruption. When that frame is the one on top, the loop pops it before it looks at any
  resume list: with the stack \<open>[F1, F2]\<close> where only \<open>F2\<close> resumes \<open>exception\<close>,
  both frames are popped and the interruption ends unhandled, instead of \<open>F2\<close> staying
  on top with \<open>X\<close> pushed.
\<close>

theorem interrupt_handler_on_top_counterexample:
  "interrupt (\<lambda>q. []) ''exception'' ''X''
     \<lparr>instances =
        [(''X'', \<lparr>id' = ''X'', module = ''E'', fields' = [], innerValue = JSString ''boom''\<rparr>)],
      frameStack = [\<lparr>locals = [], operandStack = [], resume = []\<rparr>,
                    \<lparr>locals = [], operandStack = [''a''], resume = [''exception'']\<rparr>]\<rparr>
   = Inl (Error (''Unhandled '' @ [CHR 0x22] @ ''exception'' @ [CHR 0x22] @ '' interruption: [X] E: boom''),
      \<lparr>instances =
        [(''X'', \<lparr>id' = ''X'', module = ''E'', fields' = [], innerValue = JSString ''boom''\<rparr>)],
       frameStack = []\<rparr>)
   \<and> interrupt (\<lambda>q. []) ''exception'' ''X''
     \<lparr>instances =
        [(''X'', \<lparr>id' = ''X'', module = ''E'', fields' = [], innerValue = JSString ''boom''\<rparr>)],
      frameStack = [\<lparr>locals = [], operandStack = [], resume = []\<rparr>,
                    \<lparr>locals = [], operandStack = [''a''], resume = [''exception'']\<rparr>]\<rparr>
   \<noteq> Inr \<lparr>instances =
        [(''X'', \<lparr>id' = ''X'', module = ''E'', fields' = [], innerValue = JSString ''boom''\<rparr>)],
      frameStack = [\<lparr>locals = [], operandStack = [], resume = []\<rparr>,
                    \<lparr>locals = [], operandStack = [''a'', ''X''], resume = []\<rparr>]\<rparr>"
  by (simp add: interrupt_def popFrames.simps last'_def instance'_def exceptionDetail_def)

text \<open>
  Claim C10. On a non-empty frame stack \<open>interrupt\<close> removes the top frame before it
  looks for a handler: the outcome does not depend on the top frame at all, a frame that
  handles the interruption is one of the frames below the top, and when no frame below the
  top resumes the interruption the stack ends empty with an error.
\<close>

theorem interrupt_pops_top_first:
  assumes "frameStack ev = below @ [topFrame]"
  shows "(\<forall>other. interrupt N2S k v (ev\<lparr>frameStack := below @ [other]\<rparr>) = interrupt N2S k v ev) \<and>
         (\<forall>ev'. interrupt N2S k v ev = Inr ev' \<longrightarrow>
            (\<exists>lower handler mid. below = lower @ [handler] @ mid \<and> k \<in> set (resume handler) \<and>
               (\<forall>f \<in> set mid. k \<notin> set (resume f)) \<and>
               frameStack ev' =
                 lower @ [handler\<lparr>resume := filter (\<lambda>elem. elem \<noteq> k) (resume handler),
                                  operandStack := operandStack handler @ [v]\<rparr>])) \<and>
         (\<forall>err ev'. interrupt N2S k v ev = Inl (err, ev') \<longrightarrow>
            frameStack ev' = [] \<and> (\<forall>f \<in> set below. k \<notin> set (resume f)))"
proof (intro conjI allI impI)
  fix other
  have "popFrames k (below @ [other]) = popFrames k (below @ [topFrame])"
    by (simp add: popFrames_snoc)
  then show "interrupt N2S k v (ev\<lparr>frameStack := below @ [other]\<rparr>) = interrupt N2S k v ev"
    using assms by (simp add: interrupt_def instance'_def exceptionDetail_def)
next
  fix ev' assume ok: "interrupt N2S k v ev = Inr ev'"
  then have ne: "popFrames k (below @ [topFrame]) \<noteq> []"
    using assms by (auto simp: interrupt_def last'_def Let_def split: sum.splits)
  with popFrames_result [of k "below @ [topFrame]"]
  obtain lower h mid t where
    st: "below @ [topFrame] = lower @ [h] @ mid @ [t]" and h: "k \<in> set (resume h)"
    and mid: "\<forall>f \<in> set mid. k \<notin> set (resume f)" and r: "popFrames k (below @ [topFrame]) = lower @ [h]"
    by blast
  from st have "below @ [topFrame] = (lower @ [h] @ mid) @ [t]" by simp
  then have below: "below = lower @ [h] @ mid" by (simp only: append1_eq_conv)
  have "frameStack ev' =
          lower @ [h\<lparr>resume := filter (\<lambda>elem. elem \<noteq> k) (resume h), operandStack := operandStack h @ [v]\<rparr>]"
    using ok r assms by (auto simp: interrupt_def last'_def pushOperand_def)
  with below h mid
  show "\<exists>lower handler mid. below = lower @ [handler] @ mid \<and> k \<in> set (resume handler) \<and>
          (\<forall>f \<in> set mid. k \<notin> set (resume f)) \<and>
          frameStack ev' =
            lower @ [handler\<lparr>resume := filter (\<lambda>elem. elem \<noteq> k) (resume handler),
                             operandStack := operandStack handler @ [v]\<rparr>]"
    by blast
next
  fix err ev' assume bad: "interrupt N2S k v ev = Inl (err, ev')"
  then have e: "popFrames k (below @ [topFrame]) = []"
    using assms by (auto simp: interrupt_def last'_def Let_def split: sum.splits if_splits)
  with popFrames_result [of k "below @ [topFrame]"]
  have "\<forall>f \<in> set below. k \<notin> set (resume f)" by auto
  moreover have "frameStack ev' = []"
    using bad e assms by (auto simp: interrupt_def last'_def Let_def split: sum.splits if_splits)
  ultimately show "frameStack ev' = []" and "\<forall>f \<in> set below. k \<notin> set (resume f)"
    by simp_all
qed

theorem interrupt_pops_top_first_witness:
  "interrupt (\<lambda>q. []) ''exception'' ''X''
     \<lparr>instances = [],
      frameStack = [\<lparr>locals = [], operandStack = [], resume = [''exception'']\<rparr>,
                    \<lparr>locals = [], operandStack = [], resume = [''exception'']\<rparr>]\<rparr>
   = interrupt (\<lambda>q. []) ''exception'' ''X''
     \<lparr>instances = [],
      frameStack = [\<lparr>locals = [], operandStack = [], resume = [''exception'']\<rparr>,
                    \<lparr>locals = [], operandStack = [], resume = []\<rparr>]\<rparr>
   \<and> interrupt (\<lambda>q. []) ''exception'' ''X''
     \<lparr>instances = [],
      frameStack = [\<lparr>locals = [], operandStack = [], resume = [''exception'']\<rparr>,
                    \<lparr>locals = [], operandStack = [], resume = [''exception'']\<rparr>]\<rparr>
   = Inr \<lparr>instances = [],
          frameStack = [\<lparr>locals = [], operandStack = [''X''], resume = []\<rparr>]\<rparr>"
  using interrupt_pops_top_first
    [of "\<lparr>instances = [],
      frameStack = [\<lparr>locals = [], operandStack = [], resume = [''exception'']\<rparr>,
                    \<lparr>locals = [], operandStack = [], resume = [''exception'']\<rparr>]\<rparr>"
        "[\<lparr>locals = [], operandStack = [], resume = [''exception'']\<rparr>]"
        "\<lparr>locals = [], operandStack = [], resume = [''exception'']\<rparr>"
        "\<lambda>q. []" "''exception''" "''X''"]
  by (simp add: interrupt_def popFrames.simps last'_def pushOperand_def)

subsection \<open>The message of an unhandled exception\<close>

text \<open>
  Claim C4, as the code has it. When no frame below the top resumes \<open>exception\<close> and
  the value id names an instance \<open>X\<close>, \<open>interrupt\<close> empties the stack and fails with
  the message \<^verbatim>\<open>Unhandled "exception" interruption: [id] \<close> followed by \<open>X\<close>'s module, a
  colon and a detail. The detail is \<open>X\<close>'s own inner value when \<open>X\<close> has no
  \<^verbatim>\<open>message\<close> field; when the field holds the non-empty id of an instance \<open>Y\<close>, it is
  \<open>Y\<close>'s inner value if that is truthy and \<open>X\<close>'s own inner value otherwise.
\<close>

theorem unhandled_exception_message:
  assumes "\<forall>f \<in> set (butlast (frameStack ev)). ''exception'' \<notin> set (resume f)"
    and "map_of (instances ev) valueId = Some X"
  shows "(map_of (fields' X) ''message'' = None \<longrightarrow>
            interrupt N2S ''exception'' valueId ev =
              Inl (Error (''Unhandled '' @ [CHR 0x22] @ ''exception'' @ [CHR 0x22] @ '' interruption: ['' @ valueId @ ''] ''
                          @ module X @ '': '' @ ToString N2S (innerValue X)),
                   ev\<lparr>frameStack := []\<rparr>)) \<and>
         (\<forall>messageId Y.
            map_of (fields' X) ''message'' = Some messageId \<and> messageId \<noteq> [] \<and>
            map_of (instances ev) messageId = Some Y \<longrightarrow>
            interrupt N2S ''exception'' valueId ev =
              Inl (Error (''Unhandled '' @ [CHR 0x22] @ ''exception'' @ [CHR 0x22] @ '' interruption: ['' @ valueId @ ''] ''
                          @ module X @ '': ''
                          @ ToString N2S (if truthy (innerValue Y) then innerValue Y else innerValue X)),
                   ev\<lparr>frameStack := []\<rparr>))"
  using popFrames_unhandled [OF assms(1)] assms(2)
  by (simp add: interrupt_def last'_def instance'_def exceptionDetail_def)

theorem unhandled_exception_message_witness:
  "interrupt (\<lambda>q. []) ''exception'' ''X''
     \<lparr>instances =
        [(''X'', \<lparr>id' = ''X'', module = ''E'', fields' = [(''message'', ''Y'')], innerValue = JSNull\<rparr>),
         (''Y'', \<lparr>id' = ''Y'', module = ''wollok.lang.String'', fields' = [], innerValue = JSString ''boom''\<rparr>)],
      frameStack = [\<lparr>locals = [], operandStack = [], resume = []\<rparr>]\<rparr>
   = Inl (Error (''Unhandled '' @ [CHR 0x22] @ ''exception'' @ [CHR 0x22] @ '' interruption: [X] E: boom''),
      \<lparr>instances =
        [(''X'', \<lparr>id' = ''X'', module = ''E'', fields' = [(''message'', ''Y'')], innerValue = JSNull\<rparr>),
         (''Y'', \<lparr>id' = ''Y'', module = ''wollok.lang.String'', fields' = [], innerValue = JSString ''boom''\<rparr>)],
       frameStack = []\<rparr>)
   \<and> includes' (''Unhandled '' @ [CHR 0x22] @ ''exception'' @ [CHR 0x22] @ '' interruption: [X] E: boom'') ''E: boom''"
  using unhandled_exception_message
    [of "\<lparr>instances =
        [(''X'', \<lparr>id' = ''X'', module = ''E'', fields' = [(''message'', ''Y'')], innerValue = JSNull\<rparr>),
         (''Y'', \<lparr>id' = ''Y'', module = ''wollok.lang.String'', fields' = [], innerValue = JSString ''boom''\<rparr>)],
      frameStack = [\<lparr>locals = [], operandStack = [], resume = []\<rparr>]\<rparr>"
      "''X''" "\<lparr>id' = ''X'', module = ''E'', fields' = [(''message'', ''Y'')], innerValue = JSNull\<rparr>"
      "\<lambda>q. []"]
  by simp

text \<open>
  The claim as stated promises the message instance's inner value whenever the field is
  present. A message instance whose inner value is \<^verbatim>\<open>null\<close> is passed over by the
  \<^verbatim>\<open>||\<close>: the message ends in the interrupted instance's own inner value.
\<close>

theorem unhandled_exception_falsy_message_counterexample:
  "interrupt (\<lambda>q. []) ''exception'' ''X''
     \<lparr>instances =
        [(''X'', \<lparr>id' = ''X'', module = ''E'', fields' = [(''message'', ''Y'')], innerValue = JSString ''own''\<rparr>),
         (''Y'', \<lparr>id' = ''Y'', module = ''wollok.lang.Object'', fields' = [], innerValue = JSNull\<rparr>)],
      frameStack = [\<lparr>locals = [], operandStack = [], resume = []\<rparr>]\<rparr>
   = Inl (Error (''Unhandled '' @ [CHR 0x22] @ ''exception'' @ [CHR 0x22] @ '' interruption: [X] E: own''),
      \<lparr>instances =
        [(''X'', \<lparr>id' = ''X'', module = ''E'', fields' = [(''message'', ''Y'')], innerValue = JSString ''own''\<rparr>),
         (''Y'', \<lparr>id' = ''Y'', module = ''wollok.lang.Object'', fields' = [], innerValue = JSNull\<rparr>)],
       frameStack = []\<rparr>)
   \<and> \<not> includes' (''Unhandled '' @ [CHR 0x22] @ ''exception'' @ [CHR 0x22] @ '' interruption: [X] E: own'')
         (''E: '' @ ToString (\<lambda>q. []) JSNull)"
  by (simp add: interrupt_def popFrames.simps last'_def instance'_def exceptionDetail_def)

subsection \<open>Interned number instances\<close>

lemma toFixed_cong:
  assumes "\<bar>v1\<bar> < 10 ^ 21" "\<bar>v2\<bar> < 10 ^ 21"
    and "roundToPrecision p v1 = roundToPrecision p v2"
    and "v1 < 0 \<longleftrightarrow> v2 < 0"
  shows "toFixed N2S v1 p = toFixed N2S v2 p"
proof -
  have "\<lfloor>\<bar>v1\<bar> * 10 ^ p + 1 / 2\<rfloor> = \<lfloor>\<bar>v2\<bar> * 10 ^ p + 1 / 2\<rfloor>"
    using assms(3,4) by (auto simp: roundToPrecision_def split: if_splits)
  moreover have "(if v1 < 0 then - v1 else v1) = \<bar>v1\<bar>" "(if v2 < 0 then - v2 else v2) = \<bar>v2\<bar>"
    by auto
  ultimately show ?thesis
    using assms(1,2,4) by (simp add: toFixed_def Let_def)
qed

text \<open>From \<open>2^53\<close> on every double is a whole number.\<close>

lemma double_whole:
  assumes "isDouble x" and "2 ^ 53 \<le> \<bar>x\<bar>"
  shows "rat_of_int \<lfloor>x\<rfloor> = x"
proof -
  from assms(1) obtain e where
    m: "rat_of_int \<lfloor>x / 2 powi e\<rfloor> = x / 2 powi e" and b: "\<bar>x / 2 powi e\<bar> < 2 ^ 53"
    by (auto simp: isDouble_def)
  have pos: "(0::rat) < 2 powi e" by simp
  have "\<bar>x\<bar> / 2 powi e < 2 ^ 53"
    using b by (simp add: abs_divide)
  then have "\<bar>x\<bar> < 2 ^ 53 * 2 powi e"
    using pos by (simp add: pos_divide_less_eq)
  with assms(2) have "(2::rat) ^ 53 * 1 < 2 ^ 53 * 2 powi e" by simp
  then have one: "(1::rat) < 2 powi e"
    by (simp only: mult_less_cancel_left_pos [of "2 ^ 53"] zero_less_power zero_less_numeral)
  have e: "0 < e"
  proof (rule ccontr)
    assume "\<not> 0 < e"
    then have "e \<le> 0" by simp
    then have "(2::rat) powi e \<le> 2 powi 0"
      by (intro power_int_increasing) simp_all
    with one show False by simp
  qed
  then have p: "(2::rat) powi e = rat_of_int (2 ^ nat e)"
    by (simp add: power_int_def)
  define n where "n = \<lfloor>x / 2 powi e\<rfloor> * 2 ^ nat e"
  have "x = (x / 2 powi e) * 2 powi e" by simp
  also have "\<dots> = rat_of_int \<lfloor>x / 2 powi e\<rfloor> * 2 powi e"
    by (simp only: m)
  also have "\<dots> = rat_of_int \<lfloor>x / 2 powi e\<rfloor> * rat_of_int (2 ^ nat e)"
    by (simp only: p)
  also have "\<dots> = rat_of_int n"
    by (simp add: n_def)
  finally have xn: "x = rat_of_int n" .
  show ?thesis
    unfolding xn by simp
qed

lemma floor_whole_half: "\<lfloor>rat_of_int n + 1 / 2\<rfloor> = n"
  by (rule floor_unique) simp_all

lemma roundToPrecision_whole:
  assumes "rat_of_int \<lfloor>x\<rfloor> = x"
  shows "roundToPrecision p x = x"
proof -
  have "\<bar>x\<bar> = rat_of_int \<bar>\<lfloor>x\<rfloor>\<bar>"
    by (subst (1) assms [symmetric]) simp
  then have w: "\<bar>x\<bar> * 10 ^ p = rat_of_int (\<bar>\<lfloor>x\<rfloor>\<bar> * 10 ^ p)"
    by simp
  have "\<lfloor>\<bar>x\<bar> * 10 ^ p + 1 / 2\<rfloor> = \<bar>\<lfloor>x\<rfloor>\<bar> * 10 ^ p"
    unfolding w by (rule floor_whole_half)
  then have "rat_of_int \<lfloor>\<bar>x\<bar> * 10 ^ p + 1 / 2\<rfloor> / 10 ^ p = \<bar>x\<bar> * 10 ^ p / 10 ^ p"
    unfolding w by simp
  then have r: "rat_of_int \<lfloor>\<bar>x\<bar> * 10 ^ p + 1 / 2\<rfloor> / 10 ^ p = \<bar>x\<bar>"
    by simp
  have "roundToPrecision p x
      = (if x < 0 then - 1 else 1) * (rat_of_int \<lfloor>\<bar>x\<bar> * 10 ^ p + 1 / 2\<rfloor> / 10 ^ p)"
    by (simp only: roundToPrecision_def times_divide_eq_right)
  also have "\<dots> = (if x < 0 then - 1 else 1) * \<bar>x\<bar>"
    by (simp only: r)
  also have "\<dots> = x"
    by (simp add: abs_if)
  finally show ?thesis .
qed

lemma roundToPrecision_bound: "\<bar>roundToPrecision p x\<bar> \<le> \<bar>x\<bar> + 1 / 2"
proof -
  have "rat_of_int \<lfloor>\<bar>x\<bar> * 10 ^ p + 1 / 2\<rfloor> \<le> \<bar>x\<bar> * 10 ^ p + 1 / 2"
    by (rule of_int_floor_le)
  then have "rat_of_int \<lfloor>\<bar>x\<bar> * 10 ^ p + 1 / 2\<rfloor> / 10 ^ p \<le> (\<bar>x\<bar> * 10 ^ p + 1 / 2) / 10 ^ p"
    by (simp add: divide_right_mono)
  also have "\<dots> = \<bar>x\<bar> + (1 / 2) / 10 ^ p"
    by (simp add: add_divide_distrib)
  also have "\<dots> \<le> \<bar>x\<bar> + 1 / 2"
    by (simp add: field_simps) 
  finally have up: "rat_of_int \<lfloor>\<bar>x\<bar> * 10 ^ p + 1 / 2\<rfloor> / 10 ^ p \<le> \<bar>x\<bar> + 1 / 2" .
  have "0 \<le> \<lfloor>\<bar>x\<bar> * 10 ^ p + 1 / 2\<rfloor>"
    by simp
  then have "0 \<le> rat_of_int \<lfloor>\<bar>x\<bar> * 10 ^ p + 1 / 2\<rfloor> / 10 ^ p"
    by simp
  then have "\<bar>roundToPrecision p x\<bar> = rat_of_int \<lfloor>\<bar>x\<bar> * 10 ^ p + 1 / 2\<rfloor> / 10 ^ p"
    by (simp add: roundToPrecision_def abs_mult)
  then show ?thesis using up by simp
qed

lemma toFixed_double_cong:
  assumes "isDouble v1" "isDouble v2"
    and "roundToPrecision p v1 = roundToPrecision p v2"
    and "v1 < 0 \<longleftrightarrow> v2 < 0"
  shows "toFixed N2S v1 p = toFixed N2S v2 p"
proof (cases "\<bar>v1\<bar> < 10 ^ 21 \<and> \<bar>v2\<bar> < 10 ^ 21")
  case True
  then show ?thesis using assms(3,4) by (intro toFixed_cong) simp_all
next
  case False
  have same: "a = b"
    if a: "isDouble a" and b: "isDouble b" and r: "roundToPrecision p a = roundToPrecision p b"
      and big: "10 ^ 21 \<le> \<bar>a\<bar>" for a b :: rat
  proof -
    have "(2::rat) ^ 53 \<le> 10 ^ 21" by simp
    then have a53: "2 ^ 53 \<le> \<bar>a\<bar>" using big by simp
    have ra: "roundToPrecision p a = a"
      using double_whole [OF a a53] by (rule roundToPrecision_whole)
    show ?thesis
    proof (cases "2 ^ 53 \<le> \<bar>b\<bar>")
      case True
      have "roundToPrecision p b = b"
        using double_whole [OF b True] by (rule roundToPrecision_whole)
      then show ?thesis using ra r by simp
    next
      case False
      have "\<bar>roundToPrecision p b\<bar> \<le> \<bar>b\<bar> + 1 / 2" by (rule roundToPrecision_bound)
      also have "\<dots> < 2 ^ 53 + 1 / 2" using False by simp
      also have "\<dots> < (10::rat) ^ 21" by simp
      finally have "\<bar>roundToPrecision p b\<bar> < 10 ^ 21" .
      moreover have "roundToPrecision p b = a"
        using r ra by (rule trans [OF sym])
      ultimately have lt: "\<bar>a\<bar> < 10 ^ 21" by (simp only:)
      from leD [OF big] lt have False by (rule notE)
      then show ?thesis ..
    qed
  qed
  from False have "\<not> \<bar>v1\<bar> < 10 ^ 21 \<or> \<not> \<bar>v2\<bar> < 10 ^ 21"
    by (simp only: de_Morgan_conj)
  then have "v1 = v2"
  proof
    assume "\<not> \<bar>v1\<bar> < 10 ^ 21"
    then have "10 ^ 21 \<le> \<bar>v1\<bar>" by (simp only: not_less)
    then show ?thesis by (rule same [OF assms(1,2,3)])
  next
    assume "\<not> \<bar>v2\<bar> < 10 ^ 21"
    then have "10 ^ 21 \<le> \<bar>v2\<bar>" by (simp only: not_less)
    then have "v2 = v1" by (rule same [OF assms(2,1) assms(3) [symmetric]])
    then show ?thesis by (rule sym)
  qed
  then show ?thesis by (simp only:)
qed

text \<open>The numbers of the scenarios: \<open>1.000001\<close> and \<open>-0.000001\<close> are the doubles nearest to them.\<close>

lemma digitsOf_100000: "digitsOf 100000 = ''100000''"
  by (simp add: digitsOf.simps)

lemma digitsOf_0: "digitsOf 0 = ''0''"
  by (simp add: digitsOf.simps)

lemma toFixed_1: "toFixed N2S 1 5 = ''1.00000''"
proof -
  have "\<lfloor>(200001::rat) / 2\<rfloor> = 100000" by (simp add: floor_eq_iff)
  then show ?thesis by (simp add: toFixed_def Let_def digitsOf_100000)
qed

lemma floor_1000001: "\<lfloor>(4503604130970123 / 4503599627370496 :: rat) * 10 ^ 5 + 1 / 2\<rfloor> = 100000"
  by (simp add: floor_eq_iff)

lemma toFixed_1000001: "toFixed N2S (4503604130970123 / 4503599627370496) 5 = ''1.00000''"
  using floor_1000001 by (simp add: toFixed_def Let_def digitsOf_100000)

lemma floor_minus_small:
  "\<lfloor>(4722366482869645 / 4722366482869645213696 :: rat) * 10 ^ 5 + 1 / 2\<rfloor> = 0"
  by (simp add: floor_eq_iff)

lemma toFixed_minus_small:
  "toFixed N2S (- (4722366482869645 / 4722366482869645213696)) 5 = ''-0.00000''"
  using floor_minus_small by (simp add: toFixed_def Let_def digitsOf_0 eval_nat_numeral)

lemma toFixed_0: "toFixed N2S 0 5 = ''0.00000''"
  by (simp add: toFixed_def Let_def digitsOf_0 eval_nat_numeral)

lemma Number_1: "Number' ''1.00000'' = JSNumber 1"
  by code_simp

lemma Number_0: "Number' ''0.00000'' = JSNumber 0"
  by code_simp

lemma Number_minus_0: "Number' ''-0.00000'' = JSNegativeZero"
  by code_simp

lemma isDouble_1: "isDouble 1"
  unfolding isDouble_def by (rule bexI [of _ 0]) simp_all

lemma isDouble_0: "isDouble 0"
  unfolding isDouble_def by (rule bexI [of _ 0]) simp_all

lemma isDouble_1000001: "isDouble (4503604130970123 / 4503599627370496)"
  unfolding isDouble_def by (rule bexI [of _ "- 52"]) (simp_all add: power_int_minus)

lemma isDouble_minus_small: "isDouble (- (4722366482869645 / 4722366482869645213696))"
  unfolding isDouble_def by (rule bexI [of _ "- 72"]) (simp_all add: power_int_minus)

lemma roundToPrecision_1: "roundToPrecision 5 1 = 1"
proof -
  have "\<lfloor>(200001::rat) / 2\<rfloor> = 100000" by (simp add: floor_eq_iff)
  then show ?thesis by (simp add: roundToPrecision_def)
qed

lemma roundToPrecision_1000001: "roundToPrecision 5 (4503604130970123 / 4503599627370496) = 1"
  using floor_1000001 by (simp add: roundToPrecision_def)

lemma roundToPrecision_minus_small:
  "roundToPrecision 5 (- (4722366482869645 / 4722366482869645213696)) = 0"
  using floor_minus_small by (simp add: roundToPrecision_def)

lemma roundToPrecision_0: "roundToPrecision 5 0 = 0"
proof -
  have "\<lfloor>(1::rat) / 2\<rfloor> = 0" by (simp add: floor_eq_iff)
  then show ?thesis by (simp add: roundToPrecision_def)
qed

text \<open>What \<open>Number\<close> reads back from an exponent literal and from a decimal that is no double.\<close>

lemma Number_exponent: "Number' ''1e+21'' = JSNumber (10 ^ 21)"
  by code_simp

lemma Number_tenth: "Number' ''0.10000'' = JSNumber (3602879701896397 / 36028797018963968)"
  by code_simp

text \<open>
  Claim C5, as the code has it. For a precision of at most 100 and two doubles that round
  to the same value and are both negative or both not, \<open>createInstance\<close> for
  \<^verbatim>\<open>wollok.lang.Number\<close> returns the same id \<^verbatim>\<open>N!\<close> plus the \<open>toFixed\<close> string, the second
  call after the first leaves the evaluation as it is, and from any evaluation both calls
  store the same entry under that id, whose inner value is what \<open>Number\<close> reads back from
  the string. The argument \<open>-0\<close> is treated as \<open>0\<close> is. With a precision of 5, \<open>1\<close> and
  \<open>1.000001\<close> both give \<^verbatim>\<open>N!1.00000\<close> with the inner value \<open>1\<close>.
\<close>

theorem number_instances_interned:
  assumes "DECIMAL_PRECISION \<le> 100" and "isDouble v1" and "isDouble v2"
    and "roundToPrecision DECIMAL_PRECISION v1 = roundToPrecision DECIMAL_PRECISION v2"
    and "v1 < 0 \<longleftrightarrow> v2 < 0"
  shows "(\<exists>i entry ev1 ev2.
           createInstance N2S DECIMAL_PRECISION u1 ''wollok.lang.Number'' (JSNumber v1) ev = Inr (i, ev1) \<and>
           createInstance N2S DECIMAL_PRECISION u2 ''wollok.lang.Number'' (JSNumber v2) ev1 = Inr (i, ev1) \<and>
           createInstance N2S DECIMAL_PRECISION u2 ''wollok.lang.Number'' (JSNumber v2) other = Inr (i, ev2) \<and>
           i = ''N!'' @ toFixed N2S v1 DECIMAL_PRECISION \<and>
           map_of (instances ev1) i = Some entry \<and> map_of (instances ev2) i = Some entry \<and>
           entry = \<lparr>id' = i, module = ''wollok.lang.Number'', fields' = [],
                    innerValue = Number' (toFixed N2S v1 DECIMAL_PRECISION)\<rparr>) \<and>
         createInstance N2S DECIMAL_PRECISION u1 ''wollok.lang.Number'' JSNegativeZero other
           = createInstance N2S DECIMAL_PRECISION u1 ''wollok.lang.Number'' (JSNumber 0) other"
  using toFixed_double_cong [OF assms(2-5), of N2S] assms(1)
  by (simp add: createInstance_def Let_def update_conv')

theorem number_instances_interned_witness:
  "isDouble 1 \<and> isDouble (4503604130970123 / 4503599627370496) \<and>
   roundToPrecision 5 1 = roundToPrecision 5 (4503604130970123 / 4503599627370496) \<and>
   createInstance (\<lambda>q. []) 5 ''u1'' ''wollok.lang.Number'' (JSNumber 1)
     \<lparr>instances = [], frameStack = ([] :: Frame list)\<rparr>
   = Inr (''N!1.00000'',
          \<lparr>instances = [(''N!1.00000'', \<lparr>id' = ''N!1.00000'', module = ''wollok.lang.Number'',
                                         fields' = [], innerValue = JSNumber 1\<rparr>)],
           frameStack = []\<rparr>)
   \<and> createInstance (\<lambda>q. []) 5 ''u2'' ''wollok.lang.Number''
       (JSNumber (4503604130970123 / 4503599627370496))
     \<lparr>instances = [(''N!1.00000'', \<lparr>id' = ''N!1.00000'', module = ''wollok.lang.Number'',
                                    fields' = [], innerValue = JSNumber 1\<rparr>)],
      frameStack = ([] :: Frame list)\<rparr>
   = Inr (''N!1.00000'',
          \<lparr>instances = [(''N!1.00000'', \<lparr>id' = ''N!1.00000'', module = ''wollok.lang.Number'',
                                         fields' = [], innerValue = JSNumber 1\<rparr>)],
           frameStack = []\<rparr>)"
  using number_instances_interned
      [of 5 1 "4503604130970123 / 4503599627370496" "\<lambda>q. []" "''u1''"
          "\<lparr>instances = [], frameStack = ([] :: Frame list)\<rparr>"
          "''u2''" "\<lparr>instances = [], frameStack = ([] :: Frame list)\<rparr>"]
  by (simp add: createInstance_def Let_def toFixed_1 toFixed_1000001 Number_1
        isDouble_1 isDouble_1000001 roundToPrecision_1 roundToPrecision_1000001)

text \<open>
  The claim as stated asks only that the arguments round to the same value. \<open>toFixed\<close>
  keeps the sign of a negative number that rounds to zero, so \<open>-0.000001\<close> and \<open>0\<close>,
  which both round to zero, get the ids \<^verbatim>\<open>N!-0.00000\<close> and \<^verbatim>\<open>N!0.00000\<close>, with the inner
  values \<open>-0\<close> and \<open>0\<close>.
\<close>

theorem negative_zero_not_interned_counterexample:
  "isDouble (- (4722366482869645 / 4722366482869645213696)) \<and> isDouble 0 \<and>
   roundToPrecision 5 (- (4722366482869645 / 4722366482869645213696)) = roundToPrecision 5 0 \<and>
   createInstance (\<lambda>q. []) 5 ''u1'' ''wollok.lang.Number''
       (JSNumber (- (4722366482869645 / 4722366482869645213696)))
     \<lparr>instances = [], frameStack = ([] :: Frame list)\<rparr>
   = Inr (''N!-0.00000'',
          \<lparr>instances = [(''N!-0.00000'', \<lparr>id' = ''N!-0.00000'', module = ''wollok.lang.Number'',
                                          fields' = [], innerValue = JSNegativeZero\<rparr>)],
           frameStack = []\<rparr>) \<and>
   createInstance (\<lambda>q. []) 5 ''u2'' ''wollok.lang.Number'' (JSNumber 0)
     \<lparr>instances = [], frameStack = ([] :: Frame list)\<rparr>
   = Inr (''N!0.00000'',
          \<lparr>instances = [(''N!0.00000'', \<lparr>id' = ''N!0.00000'', module = ''wollok.lang.Number'',
                                         fields' = [], innerValue = JSNumber 0\<rparr>)],
           frameStack = []\<rparr>) \<and>
   ''N!-0.00000'' \<noteq> ''N!0.00000''"
  by (simp add: createInstance_def Let_def toFixed_minus_small toFixed_0 Number_0 Number_minus_0
        roundToPrecision_minus_small roundToPrecision_0 isDouble_minus_small isDouble_0)

section \<open>Properties of the tree algorithms\<close>

subsection \<open>The fold over a node's own children\<close>

lemma foldl_count_shift:
  fixes R :: "nat \<Rightarrow> 'a \<Rightarrow> nat"
  assumes "\<And>c k. c \<in> set cs \<Longrightarrow> R k c = k + R 0 c"
  shows "foldl R k cs = k + (\<Sum>c\<leftarrow>cs. R 0 c)"
  using assms
proof (induction cs arbitrary: k)
  case Nil
  then show ?case by simp
next
  case (Cons a cs)
  have a: "R k a = k + R 0 a"
    by (rule Cons.prems) simp
  have "foldl R (R k a) cs = R k a + (\<Sum>c\<leftarrow>cs. R 0 c)"
    by (rule Cons.IH) (rule Cons.prems, simp)
  then show ?case by (simp add: a)
qed

lemma reduce_count_shift:
  "ownReduce (\<lambda>a n. Suc a) k this = k + ownReduce (\<lambda>a n. Suc a) (0::nat) this"
proof (induction "size this" arbitrary: this k rule: less_induct)
  case less
  have sub: "\<And>c j. c \<in> set (ownChildren this) \<Longrightarrow>
      ownReduce (\<lambda>a n. Suc a) j c = j + ownReduce (\<lambda>a n. Suc a) (0::nat) c"
    using less children_smaller by blast
  have "ownReduce (\<lambda>a n. Suc a) k this
          = Suc k + (\<Sum>c\<leftarrow>ownChildren this. ownReduce (\<lambda>a n. Suc a) (0::nat) c)"
    by (subst ownReduce.simps) (rule foldl_count_shift, rule sub)
  moreover have "ownReduce (\<lambda>a n. Suc a) 0 this
          = Suc 0 + (\<Sum>c\<leftarrow>ownChildren this. ownReduce (\<lambda>a n. Suc a) (0::nat) c)"
    by (subst ownReduce.simps) (rule foldl_count_shift, rule sub)
  ultimately show ?case by simp
qed

lemma reduce_count_unfold:
  "ownReduce (\<lambda>a n. Suc a) (0::nat) this
     = Suc (\<Sum>c\<leftarrow>ownChildren this. ownReduce (\<lambda>a n. Suc a) (0::nat) c)"
proof -
  have "ownReduce (\<lambda>a n. Suc a) (0::nat) this
          = Suc 0 + (\<Sum>c\<leftarrow>ownChildren this. ownReduce (\<lambda>a n. Suc a) (0::nat) c)"
    by (subst ownReduce.simps) (rule foldl_count_shift, rule reduce_count_shift)
  then show ?thesis by simp
qed

lemma reduce_count_pos: "0 < ownReduce (\<lambda>a n. Suc a) (0::nat) this"
  by (subst reduce_count_unfold) simp

lemma sum_count_split:
  "(\<Sum>c\<leftarrow>cs. ownReduce (\<lambda>a n. Suc a) (0::nat) c)
     = length cs + (\<Sum>c\<leftarrow>cs. ownReduce (\<lambda>a n. Suc a) (0::nat) c - 1)"
proof (induction cs)
  case Nil
  then show ?case by simp
next
  case (Cons a cs)
  then show ?case using reduce_count_pos [of a] by simp
qed

lemma length_descendantsFrom:
  "length (ownDescendantsFrom None next pending response)
     = length response + (\<Sum>m\<leftarrow>next # pending. ownReduce (\<lambda>a n. Suc a) (0::nat) m - 1)"
proof (induction "None :: string option" "next" pending response rule: ownDescendantsFrom.induct)
  case (1 "next" pending response)
  have unfold: "ownReduce (\<lambda>a n. Suc a) (0::nat) next - 1
      = length (ownChildren next) + (\<Sum>c\<leftarrow>ownChildren next. ownReduce (\<lambda>a n. Suc a) (0::nat) c - 1)"
    using reduce_count_unfold [of "next"] sum_count_split [of "ownChildren next"] by simp
  show ?case
  proof (cases "pending @ ownChildren next")
    case Nil
    have "ownDescendantsFrom None next pending response = response"
      using Nil by (subst ownDescendantsFrom.simps) simp
    then show ?thesis
      using Nil unfold by simp
  next
    case (Cons next' rest)
    have "length (ownDescendantsFrom None next pending response)
            = length (ownDescendantsFrom None next' rest (response @ ownChildren next))"
      using Cons by (subst ownDescendantsFrom.simps) simp
    also have "\<dots> = length (response @ ownChildren next)
                      + (\<Sum>m\<leftarrow>next' # rest. ownReduce (\<lambda>a n. Suc a) (0::nat) m - 1)"
      using 1 [OF refl refl refl Cons] by simp
    also have "(\<Sum>m\<leftarrow>next' # rest. ownReduce (\<lambda>a n. Suc a) (0::nat) m - 1)
                 = (\<Sum>m\<leftarrow>pending @ ownChildren next. ownReduce (\<lambda>a n. Suc a) (0::nat) m - 1)"
      using Cons by simp
    finally show ?thesis
      using unfold by simp
  qed
qed

text \<open>Without memo tables the fold counts the node and its descendants.\<close>

lemma ownReduce_count:
  "ownReduce (\<lambda>a n. a + 1) (0::nat) this = 1 + length (ownDescendants this None)"
  using reduce_count_pos [of this] by (simp add: ownDescendants_def length_descendantsFrom)

subsection \<open>The order of transform\<close>

lemma those_map_Some:
  assumes "\<And>x. x \<in> set xs \<Longrightarrow> f x = Some (g x)"
  shows "those (map f xs) = Some (map g xs)"
  using assms by (induction xs) auto

lemma applyTransform_byKind:
  "size v < fuel \<Longrightarrow>
   applyTransform N2S (TxByKind byKind) fuel v =
     Some (rewriteBottomUp
             (\<lambda>original. case byKind (ToString N2S (get original ''kind'')) of Some f \<Rightarrow> f | None \<Rightarrow> (\<lambda>n. n)) v)"
proof (induction fuel arbitrary: v)
  case 0
  then show ?case by simp
next
  case (Suc fuel)
  show ?case
  proof (cases v)
    case (JSArray vs)
    have "those (map (applyTransform N2S (TxByKind byKind) fuel) vs)
            = Some (map (rewriteBottomUp
             (\<lambda>original. case byKind (ToString N2S (get original ''kind'')) of Some f \<Rightarrow> f | None \<Rightarrow> (\<lambda>n. n))) vs)"
    proof (rule those_map_Some)
      fix x assume "x \<in> set vs"
      then have "size x < fuel"
        using element_smaller [of x vs] Suc.prems JSArray by simp
      then show "applyTransform N2S (TxByKind byKind) fuel x
        = Some (rewriteBottomUp (\<lambda>original. case byKind (ToString N2S (get original ''kind'')) of Some f \<Rightarrow> f | None \<Rightarrow> (\<lambda>n. n)) x)"
        by (rule Suc.IH)
    qed
    then show ?thesis using JSArray by simp
  next
    case (JSObject kvs)
    have "those (map (\<lambda>(key, x). map_option (Pair key) (applyTransform N2S (TxByKind byKind) fuel x)) kvs)
            = Some (map (\<lambda>(key, x). (key, rewriteBottomUp
             (\<lambda>original. case byKind (ToString N2S (get original ''kind'')) of Some f \<Rightarrow> f | None \<Rightarrow> (\<lambda>n. n)) x)) kvs)"
    proof (rule those_map_Some)
      fix p assume p: "p \<in> set kvs"
      obtain key x where kx: "p = (key, x)" by (cases p)
      then have "size x < fuel"
        using property_smaller [of key x kvs] p Suc.prems JSObject by simp
      then have "applyTransform N2S (TxByKind byKind) fuel x
        = Some (rewriteBottomUp (\<lambda>original. case byKind (ToString N2S (get original ''kind'')) of Some f \<Rightarrow> f | None \<Rightarrow> (\<lambda>n. n)) x)"
        by (rule Suc.IH)
      then show "(case p of (key, x) \<Rightarrow> map_option (Pair key) (applyTransform N2S (TxByKind byKind) fuel x))
        = Some (case p of (key, x) \<Rightarrow> (key, rewriteBottomUp
             (\<lambda>original. case byKind (ToString N2S (get original ''kind'')) of Some f \<Rightarrow> f | None \<Rightarrow> (\<lambda>n. n)) x))"
        using kx by simp
    qed
    then show ?thesis using JSObject by (simp add: mapObject_def Let_def)
  qed simp_all
qed

text \<open>
  Claim C2, as the code has it. With a mapping from kinds to functions, \<^verbatim>\<open>transform\<close>
  terminates (fuel above the size of the tree is enough) and is the bottom-up rewrite:
  the function of a node's kind is applied to the node whose property values have already
  been rewritten. With a single function, the function is applied to the node as it
  stands and the property values of its result are rewritten afterwards.
\<close>

theorem transform_order:
  "(size this < fuel \<longrightarrow>
      transform N2S fuel this (TxByKind byKind) =
        Some (rewriteBottomUp
                (\<lambda>original. case byKind (ToString N2S (get original ''kind'')) of
                               Some f \<Rightarrow> f | None \<Rightarrow> (\<lambda>n. n)) this)) \<and>
   (isNode (JSObject kvs) \<longrightarrow>
      transform N2S (Suc fuel') (JSObject kvs) (TxFunction tx) =
        mapObject (\<lambda>v. transform N2S fuel' v (TxFunction tx)) (tx (JSObject kvs)))"
  by (simp add: transform_def applyTransform_byKind)

theorem transform_order_witness:
  "size (JSObject [(''kind'', JSString ''Return''), (''value'', JSObject [(''kind'', JSString ''Self'')])]) < 9
   \<and> transform (\<lambda>q. []) 9
     (JSObject [(''kind'', JSString ''Return''), (''value'', JSObject [(''kind'', JSString ''Self'')])])
     (TxByKind (\<lambda>kind. Some (\<lambda>n. JSObject (markChildDone n))))
   = Some (JSObject
       [(''kind'', JSString ''Return''),
        (''value'', JSObject [(''kind'', JSString ''Self''), (''value'', JSUndefined),
                              (''childDone'', JSBoolean False), (''done'', JSBoolean True)]),
        (''childDone'', JSBoolean True), (''done'', JSBoolean True)])
   \<and> transform (\<lambda>q. []) 3
     (JSObject [(''kind'', JSString ''Return''), (''value'', JSObject [(''kind'', JSString ''Self'')])])
     (TxFunction markChildDone)
   = Some (JSObject
       [(''kind'', JSString ''Return''),
        (''value'', JSObject [(''kind'', JSString ''Self''), (''value'', JSUndefined),
                              (''childDone'', JSBoolean False), (''done'', JSBoolean True)]),
        (''childDone'', JSBoolean False), (''done'', JSBoolean True)])"
  using transform_order
    [where this = "JSObject [(''kind'', JSString ''Return''), (''value'', JSObject [(''kind'', JSString ''Self'')])]"
       and fuel = 9 and ?N2S = "\<lambda>q. []" and byKind = "\<lambda>kind. Some (\<lambda>n. JSObject (markChildDone n))"
       and kvs = "[(''kind'', JSString ''Return''), (''value'', JSObject [(''kind'', JSString ''Self'')])]"
       and fuel' = 2 and tx = markChildDone]
  by (simp add: transform_def mapObject_def markChildDone_def isNode_def get_def eval_nat_numeral)

text \<open>
  The claim as stated has the single function applied bottom-up as well. On a
  \<^verbatim>\<open>Return\<close> node over a \<^verbatim>\<open>Self\<close> node, \<open>markChildDone\<close> as a single function sees the
  child unmarked; the bottom-up rewrite would have shown it marked.
\<close>

theorem transform_function_top_down_counterexample:
  "transform (\<lambda>q. []) 3
     (JSObject [(''kind'', JSString ''Return''), (''value'', JSObject [(''kind'', JSString ''Self'')])])
     (TxFunction markChildDone)
   = Some (JSObject
       [(''kind'', JSString ''Return''),
        (''value'', JSObject [(''kind'', JSString ''Self''), (''value'', JSUndefined),
                              (''childDone'', JSBoolean False), (''done'', JSBoolean True)]),
        (''childDone'', JSBoolean False), (''done'', JSBoolean True)])
   \<and> rewriteBottomUp (\<lambda>original n. JSObject (markChildDone n))
     (JSObject [(''kind'', JSString ''Return''), (''value'', JSObject [(''kind'', JSString ''Self'')])])
   = JSObject
       [(''kind'', JSString ''Return''),
        (''value'', JSObject [(''kind'', JSString ''Self''), (''value'', JSUndefined),
                              (''childDone'', JSBoolean False), (''done'', JSBoolean True)]),
        (''childDone'', JSBoolean True), (''done'', JSBoolean True)]"
  by (simp add: transform_def mapObject_def markChildDone_def isNode_def get_def eval_nat_numeral)

section \<open>Properties of linked nodes\<close>

subsection \<open>hierarchy\<close>

text \<open>A hierarchy that is returned starts with the module itself.\<close>

lemma hierarchyReduce_extends:
  "hierarchyReduce environment parents (mods, exs) = Inr (mods', exs') \<Longrightarrow> \<exists>more. mods' = mods @ more"
proof (induction parents arbitrary: mods exs)
  case Nil
  then show ?case by simp
next
  case (Cons mod' rest)
  from Cons.prems obtain inherited where
    "hierarchyReduce environment rest (mods @ inherited, get mod' ''id'' # exs) = Inr (mods', exs')"
    by (auto split: sum.splits)
  from Cons.IH [OF this] show ?case by auto
qed

lemma hierarchy_starts_with_self:
  assumes "hierarchy environment this = Inr modules"
  shows "\<exists>ancestors. modules = this # ancestors"
proof -
  from assms obtain parents mods exs where
    "hierarchyReduce environment parents ([this], get this ''id'' # []) = Inr (mods, exs)" and "modules = mods"
    by (auto simp: hierarchy_def hierarchyExcluding.simps split: if_splits sum.splits)
  then show ?thesis
    using hierarchyReduce_extends by fastforce
qed

text \<open>
  Claim C1. The hierarchy of a module starts with the module, but its ids need not be
  distinct: the fold excludes the parents already visited, not what they inherited. A
  class that mixes in \<^verbatim>\<open>M1\<close> and \<^verbatim>\<open>M2\<close>, which both mix in \<^verbatim>\<open>M3\<close>, gets \<^verbatim>\<open>M3\<close> twice.
\<close>

theorem hierarchy_diamond_repeats:
  "hierarchy diamondEnvironment diamondClass =
     Inr [diamondClass,
          mixin ''m1'' ''M1'' [reference ''r1'' ''p.M3''],
          mixin ''m3'' ''M3'' [],
          mixin ''m2'' ''M2'' [reference ''r2'' ''p.M3''],
          mixin ''m3'' ''M3'' []]"
  by code_simp

subsection \<open>lookupMethod\<close>

lemma lookupMethod_foo_1: "lookupMethod fooEnvironment fooModule ''foo'' 1 = Inr (Some fooMethod)"
  by code_simp

lemma lookupMethod_foo_4: "lookupMethod fooEnvironment fooModule ''foo'' 4 = Inr (Some fooMethod)"
  by code_simp

lemma lookupMethod_foo_0: "lookupMethod fooEnvironment fooModule ''foo'' 0 = Inr None"
  by code_simp

text \<open>
  Claim C6. \<^verbatim>\<open>lookupMethod\<close> returns the first method, in hierarchy order, that has a
  body or is native, has the name, and matches the arity by the spec's predicate.
  For the class that declares \<^verbatim>\<open>foo(a, *b)\<close>, arities 1 and 4 find the method and arity 0
  finds none.
\<close>

theorem lookupMethod_arity:
  "lookupMethod environment this name arity =
     (if \<not> is' this ''Module'' then Inl (NotAFunction ''lookupMethod'')
      else
        case hierarchy environment this of
          Inl err \<Rightarrow> Inl err
        | Inr modules \<Rightarrow>
            Inr (find (\<lambda>member.
                         (truthy (get member ''body'') \<or> truthy (get member ''isNative'')) \<and>
                         get member ''name'' = JSString name \<and>
                         arityMatch
                           (\<exists>parameter \<in> set (arrayOf (get member ''parameters'')).
                              truthy (get parameter ''isVarArg''))
                           (length (arrayOf (get member ''parameters''))) arity)
                   (concat (map methods modules)))) \<and>
   lookupMethod fooEnvironment fooModule ''foo'' 1 = Inr (Some fooMethod) \<and>
   lookupMethod fooEnvironment fooModule ''foo'' 4 = Inr (Some fooMethod) \<and>
   lookupMethod fooEnvironment fooModule ''foo'' 0 = Inr None"
  unfolding lookupMethod_foo_1 lookupMethod_foo_4 lookupMethod_foo_0
  by (simp add: lookupMethod_def arityMatch_def firstFound_map_find split: sum.splits)

subsection \<open>Unique ids: getNodeById and parent\<close>

text \<open>
  With unique ids, \<^verbatim>\<open>getNodeById\<close> returns the node that carries the id, and \<^verbatim>\<open>parent\<close>
  returns the node whose children hold the node.
\<close>

lemma extractChildren_nodes: "c \<in> set (extractChildren v) \<Longrightarrow> isNode c"
proof (induction v rule: extractChildren.induct)
  case (1 owner)
  show ?case
  proof (cases "isNode owner")
    case True
    then show ?thesis using 1(3) by (subst (asm) extractChildren.simps) simp
  next
    case False
    show ?thesis
    proof (cases owner)
      case (JSArray vs)
      then have "c \<in> set (concat (map extractChildren vs))"
        using 1(3) False by (subst (asm) extractChildren.simps) simp
      then show ?thesis using 1(1) [OF False JSArray] by auto
    next
      case (JSObject kvs)
      then have "c \<in> set (concat (map extractChildren (map snd kvs)))"
        using 1(3) False by (subst (asm) extractChildren.simps) simp
      then show ?thesis using 1(2) [OF False JSObject] by auto
    qed (use 1(3) False in \<open>simp_all add: extractChildren.simps\<close>)
  qed
qed

lemma children_nodes: "c \<in> set (ownChildren n) \<Longrightarrow> isNode c"
  by (auto simp: ownChildren_def dest: extractChildren_nodes)

lemma uniqueIds_subtree: "uniqueIds environment \<longleftrightarrow> distinct (map (\<lambda>n. get n ''id'') (subtree environment))"
proof -
  have "mset (map (\<lambda>n. get n ''id'') (environment # ownDescendants environment None))
      = mset (map (\<lambda>n. get n ''id'') (subtree environment))"
    using mset_descendants [of environment] by (metis mset_map)
  then show ?thesis
    unfolding uniqueIds_def by (rule mset_eq_imp_distinct_iff)
qed











subsection \<open>Names along a package path\<close>































section \<open>The traversals over memoised children\<close>

subsection \<open>Coherent tables answer with a node's own children\<close>

lemma children_coherent:
  assumes "coherent caches top'" and "n \<in> set (subtree top')"
  shows "\<exists>caches'. children caches n = (ownChildren n, caches') \<and> coherent caches' top'"
proof (cases "truthy (get n ''id'')")
  case False
  then have "children caches n = (ownChildren n, caches)"
    by (simp add: children_def cache_def)
  then show ?thesis using assms(1) by blast
next
  case True
  note c = assms(1) [unfolded coherent_def, rule_format, OF assms(2) True]
  show ?thesis
  proof (cases "caches (get n ''children'') (get n ''id'')")
    case (Some cached)
    then have "cached = ownChildren n" using c by simp
    then have "children caches n = (ownChildren n, caches)"
      using True Some by (simp add: children_def cache_def)
    then show ?thesis using assms(1) by blast
  next
    case None
    let ?caches = "caches(get n ''children'' := (caches (get n ''children''))(get n ''id'' \<mapsto> ownChildren n))"
    have r: "children caches n = (ownChildren n, ?caches)"
      using True None by (simp add: children_def cache_def Let_def)
    have "coherent ?caches top'"
      unfolding coherent_def
    proof (intro ballI impI conjI)
      fix m assume m: "m \<in> set (subtree top')" and t: "truthy (get m ''id'')"
      note cm = assms(1) [unfolded coherent_def, rule_format, OF m t]
      show "case ?caches (get m ''children'') (get m ''id'') of
              None \<Rightarrow> True | Some cached \<Rightarrow> cached = ownChildren m"
      proof (cases "get m ''children'' = get n ''children'' \<and> get m ''id'' = get n ''id''")
        case True
        then have "ownChildren m = ownChildren n"
          using c m by blast
        then show ?thesis using True by simp
      next
        case False
        then have "?caches (get m ''children'') (get m ''id'')
            = caches (get m ''children'') (get m ''id'')"
          by auto
        then show ?thesis using cm by simp
      qed
    next
      fix m k assume m: "m \<in> set (subtree top')" and t: "truthy (get m ''id'')"
        and k: "k \<in> set (subtree top')"
        and "get k ''children'' = get m ''children'' \<and> get k ''id'' = get m ''id''"
      then show "ownChildren k = ownChildren m"
        using assms(1) [unfolded coherent_def, rule_format, OF m t] by blast
    qed
    then show ?thesis using r by blast
  qed
qed

lemma fold_reduce_coherent:
  assumes step: "\<And>caches acum c. coherent caches top' \<Longrightarrow> c \<in> set cs \<Longrightarrow>
      \<exists>caches'. R caches acum c = Some (P acum c, caches') \<and> coherent caches' top'"
    and "coherent caches top'"
  shows "\<exists>caches'.
      foldl (\<lambda>state child. case state of None \<Rightarrow> None | Some (acum, caches'') \<Rightarrow> R caches'' acum child)
        (Some (initial, caches)) cs = Some (foldl P initial cs, caches') \<and> coherent caches' top'"
  using assms
proof (induction cs arbitrary: caches initial)
  case Nil
  then show ?case by simp
next
  case (Cons a cs)
  from Cons.prems(1) [OF Cons.prems(2), of a initial] obtain caches1 where
    a: "R caches initial a = Some (P initial a, caches1)" and c1: "coherent caches1 top'"
    by auto
  have "\<exists>caches'.
      foldl (\<lambda>state child. case state of None \<Rightarrow> None | Some (acum, caches'') \<Rightarrow> R caches'' acum child)
        (Some (P initial a, caches1)) cs = Some (foldl P (P initial a) cs, caches') \<and> coherent caches' top'"
  proof (rule Cons.IH [OF _ c1])
    fix caches acum c
    assume "coherent caches top'" and "c \<in> set cs"
    then show "\<exists>caches'. R caches acum c = Some (P acum c, caches') \<and> coherent caches' top'"
      using Cons.prems(1) [of caches c acum] by simp
  qed
  then show ?case using a by simp
qed

lemma reduce_coherent:
  "coherent caches top' \<Longrightarrow> n \<in> set (subtree top') \<Longrightarrow> size n < fuel \<Longrightarrow>
   \<exists>caches'. reduce' fuel caches tx initial n = Some (ownReduce tx initial n, caches') \<and>
     coherent caches' top'"
proof (induction fuel arbitrary: caches initial n)
  case 0
  then show ?case by simp
next
  case (Suc fuel)
  from children_coherent [OF Suc.prems(1,2)] obtain caches1 where
    ch: "children caches n = (ownChildren n, caches1)" and c1: "coherent caches1 top'"
    by blast
  have "\<exists>caches'.
      foldl (\<lambda>state child. case state of None \<Rightarrow> None
                           | Some (acum, caches'') \<Rightarrow> reduce' fuel caches'' tx acum child)
        (Some (tx initial n, caches1)) (ownChildren n)
      = Some (foldl (ownReduce tx) (tx initial n) (ownChildren n), caches') \<and> coherent caches' top'"
  proof (rule fold_reduce_coherent [OF _ c1])
    fix caches acum c
    assume co: "coherent caches top'" and c: "c \<in> set (ownChildren n)"
    have "c \<in> set (subtree top')"
      using Suc.prems(2) c by (rule subtree_children_closed)
    moreover have "size c < fuel"
      using children_smaller [OF c] Suc.prems(3) by simp
    ultimately show "\<exists>caches'. reduce' fuel caches tx acum c = Some (ownReduce tx acum c, caches') \<and>
        coherent caches' top'"
      using co by (intro Suc.IH)
  qed
  moreover have "ownReduce tx initial n = foldl (ownReduce tx) (tx initial n) (ownChildren n)"
    by (subst ownReduce.simps) simp
  ultimately show ?case using ch by simp
qed

lemma length_subtree:
  "length (subtree n) = Suc (\<Sum>c\<leftarrow>ownChildren n. length (subtree c))"
  by (subst subtree.simps) (simp add: length_concat comp_def)

lemma descendantsFrom_coherent:
  "coherent caches top' \<Longrightarrow> set (next # pending) \<subseteq> set (subtree top') \<Longrightarrow>
   \<forall>p \<in> set pending. truthy p \<Longrightarrow> (\<Sum>m\<leftarrow>next # pending. length (subtree m)) \<le> fuel \<Longrightarrow>
   \<exists>caches'. descendantsFrom fuel caches None next pending response
       = Some (ownDescendantsFrom None next pending response, caches') \<and> coherent caches' top'"
proof (induction fuel arbitrary: caches "next" pending response)
  case 0
  then show ?case using length_subtree [of "next"] by simp
next
  case (Suc fuel)
  have nx: "next \<in> set (subtree top')" using Suc.prems(2) by simp
  from children_coherent [OF Suc.prems(1) nx] obtain caches1 where
    ch: "children caches next = (ownChildren next, caches1)" and c1: "coherent caches1 top'"
    by blast
  show ?case
  proof (cases "pending @ ownChildren next")
    case Nil
    have "descendantsFrom (Suc fuel) caches None next pending response
        = Some (response @ ownChildren next, caches1)"
      using ch Nil by simp
    moreover have "ownDescendantsFrom None next pending response = response @ ownChildren next"
      using Nil by (subst ownDescendantsFrom.simps) simp
    ultimately show ?thesis using c1 by simp
  next
    case (Cons next' rest)
    have mem: "set (next' # rest) = set pending \<union> set (ownChildren next)"
      using Cons [symmetric] by simp
    have sub: "set (next' # rest) \<subseteq> set (subtree top')"
      unfolding mem using Suc.prems(2) subtree_children_closed [OF nx] by auto
    have tr: "\<forall>p \<in> set (next' # rest). truthy p"
      unfolding mem using Suc.prems(3) children_nodes [of _ "next"] by (auto simp: isNode_def)
    have "(\<Sum>m\<leftarrow>next' # rest. length (subtree m))
        = (\<Sum>m\<leftarrow>pending. length (subtree m)) + (\<Sum>c\<leftarrow>ownChildren next. length (subtree c))"
      unfolding Cons [symmetric] by simp
    then have fu: "(\<Sum>m\<leftarrow>next' # rest. length (subtree m)) \<le> fuel"
      using Suc.prems(4) length_subtree [of "next"] by simp
    have tr': "\<forall>p \<in> set rest. truthy p" and t0: "truthy next'"
      using tr by simp_all
    from Suc.IH [OF c1 sub tr' fu, of "response @ ownChildren next"] obtain caches2 where
      r: "descendantsFrom fuel caches1 None next' rest (response @ ownChildren next)
          = Some (ownDescendantsFrom None next' rest (response @ ownChildren next), caches2)"
      and c2: "coherent caches2 top'"
      by blast
    have "descendantsFrom (Suc fuel) caches None next pending response
        = descendantsFrom fuel caches1 None next' rest (response @ ownChildren next)"
      using ch Cons t0 by simp
    moreover have "ownDescendantsFrom None next pending response
        = ownDescendantsFrom None next' rest (response @ ownChildren next)"
      using Cons by (subst ownDescendantsFrom.simps) simp
    ultimately show ?thesis using r c2 by simp
  qed
qed

lemma descendants_coherent:
  assumes "coherent caches this" and "length (subtree this) \<le> fuel"
  shows "\<exists>caches'. descendants fuel caches this None = Some (ownDescendants this None, caches') \<and>
     coherent caches' this"
  using descendantsFrom_coherent [of caches this this "[]" fuel "[]"] assms
  by (simp add: descendants_def ownDescendants_def subtree_self)

text \<open>
  With unique ids no two nodes of a tree share a table entry, so a tree with unique ids
  for which nothing has been memoised yet is in a coherent state.
\<close>

lemma coherent_unique_ids:
  assumes "uniqueIds environment"
  shows "coherent noCaches environment"
proof -
  have d: "distinct (map (\<lambda>n. get n ''id'') (subtree environment))"
    using assms by (simp only: uniqueIds_subtree)
  have "m = n"
    if "n \<in> set (subtree environment)" "m \<in> set (subtree environment)"
      and "get m ''id'' = get n ''id''" for m n
    using that d by (meson distinct_map inj_onD)
  then show ?thesis
    by (auto simp: coherent_def noCaches_def)
qed

subsection \<open>reduce counts the nodes of the subtree\<close>

text \<open>
  Claim C8, as the code has it. When the memo tables are coherent for the subtree of a
  node, \<^verbatim>\<open>reduce((a, _) => a + 1, 0)\<close> returns one plus the number of nodes that
  \<^verbatim>\<open>descendants()\<close> returns, the node and its descendants are the nodes of the subtree,
  one time each, and both calls leave the tables coherent. Fuel above the size of the node
  is enough for the fold, and as much fuel as the subtree has nodes for the loop.
\<close>

theorem reduce_counts_nodes:
  assumes "coherent caches this" and "size this < fuel" and "length (subtree this) \<le> fuel'"
  shows "\<exists>ds caches1 caches2.
           descendants fuel' caches this None = Some (ds, caches2) \<and>
           reduce' fuel caches (\<lambda>a n. a + 1) (0::nat) this = Some (1 + length ds, caches1) \<and>
           mset (this # ds) = mset (subtree this) \<and>
           coherent caches1 this \<and> coherent caches2 this"
proof -
  from descendants_coherent [OF assms(1,3)] obtain caches2 where
    d: "descendants fuel' caches this None = Some (ownDescendants this None, caches2)"
    and c2: "coherent caches2 this"
    by blast
  from reduce_coherent [OF assms(1) subtree_self assms(2), of "\<lambda>a n. a + 1" 0] obtain caches1 where
    r: "reduce' fuel caches (\<lambda>a n. a + 1) (0::nat) this
        = Some (ownReduce (\<lambda>a n. a + 1) 0 this, caches1)"
    and c1: "coherent caches1 this"
    by blast
  have "reduce' fuel caches (\<lambda>a n. a + 1) (0::nat) this
      = Some (1 + length (ownDescendants this None), caches1)"
    using r by (simp only: ownReduce_count)
  then show ?thesis
    using d c1 c2 mset_descendants [of this] by blast
qed

lemma coherent_memoBody: "coherent noCaches memoBody"
  by code_simp

lemma subtree_memoBody: "subtree memoBody = [memoBody, memoLeaf ''s1'', memoLeaf ''s2'']"
  by code_simp

lemma size_memoBody: "size memoBody < 40"
  by (simp add: memoBody_def memoLeaf_def)

lemma descendants_memoBody:
  "map_option fst (descendants 3 noCaches memoBody None) = Some [memoLeaf ''s1'', memoLeaf ''s2'']"
  by code_simp

lemma reduce_memoBody:
  "map_option fst (reduce' 40 noCaches (\<lambda>a n. a + 1) (0::nat) memoBody) = Some 3"
  by code_simp

theorem reduce_counts_nodes_witness:
  "coherent noCaches memoBody \<and> size memoBody < 40 \<and> length (subtree memoBody) \<le> 3 \<and>
   map_option fst (descendants 3 noCaches memoBody None) = Some [memoLeaf ''s1'', memoLeaf ''s2''] \<and>
   map_option fst (reduce' 40 noCaches (\<lambda>a n. a + 1) (0::nat) memoBody) = Some 3"
  using reduce_counts_nodes [of noCaches memoBody 40 3]
    coherent_memoBody size_memoBody descendants_memoBody reduce_memoBody
  by (simp add: subtree_memoBody)

text \<open>
  The claim as stated describes the count as self plus all descendants plus one. On a
  node without children, and with nothing memoised, the fold yields 1, not 2.
\<close>

theorem reduce_extra_one_counterexample:
  "coherent noCaches (memoLeaf ''s1'') \<and>
   map_option fst (descendants 1 noCaches (memoLeaf ''s1'') None) = Some [] \<and>
   map_option fst (reduce' 1 noCaches (\<lambda>a n. a + 1) (0::nat) (memoLeaf ''s1'')) = Some 1 \<and>
   map_option fst (reduce' 1 noCaches (\<lambda>a n. a + 1) (0::nat) (memoLeaf ''s1''))
     \<noteq> Some (1 + length ([] :: JSValue list) + 1)"
  by code_simp

text \<open>
  The claim as stated covers every node. A node that is rewritten after its children were
  memoised answers with the old children: the copy of the body with no sentences left is
  counted as three nodes once the original has been asked for its children, and as one
  node when nothing has been memoised.
\<close>

lemma reduce_stale_memo:
  "fst (children noCaches memoBody) = [memoLeaf ''s1'', memoLeaf ''s2''] \<and>
   ownChildren rewrittenBody = [] \<and>
   fst (children (snd (children noCaches memoBody)) rewrittenBody) = [memoLeaf ''s1'', memoLeaf ''s2''] \<and>
   map_option fst (reduce' 40 (snd (children noCaches memoBody)) (\<lambda>a n. a + 1) (0::nat) rewrittenBody)
     = Some 3 \<and>
   map_option fst (reduce' 40 noCaches (\<lambda>a n. a + 1) (0::nat) rewrittenBody) = Some 1 \<and>
   \<not> coherent (snd (children noCaches memoBody)) rewrittenBody"
  by code_simp


section \<open>Isolation of a copied evaluation\<close>

subsection \<open>Reading depends on the reached objects only\<close>

lemma deref_append: "a < length h \<Longrightarrow> deref (h @ xs) a = deref h a"
  by (simp add: deref_def nth_append)

lemma deref_in_range: "deref h a = Some x \<Longrightarrow> a < length h"
  by (simp add: deref_def split: if_splits)

lemma deref_update:
  "deref (h[b := x]) a = (if a = b \<and> b < length h then Some x else deref h a)"
  by (simp add: deref_def)

lemma instance_cong:
  assumes "\<And>b. b \<in> set (instanceFootprint h a) \<Longrightarrow> deref h2 b = deref h b"
  shows "viewInstance h2 a = viewInstance h a"
    and "instanceFootprint h2 a = instanceFootprint h a"
proof -
  have a: "deref h2 a = deref h a"
    using assms [of a] by (simp add: instanceFootprint_def split: option.splits HeapObject.splits)
  have f: "\<And>i m f v. deref h a = Some (InstanceObject i m f v) \<Longrightarrow> deref h2 f = deref h f"
    using assms by (simp add: instanceFootprint_def)
  show "viewInstance h2 a = viewInstance h a"
    using a f by (simp add: viewInstance_def split: option.splits HeapObject.splits)
  show "instanceFootprint h2 a = instanceFootprint h a"
    using a by (simp add: instanceFootprint_def)
qed

lemma frame_cong:
  assumes "\<And>b. b \<in> set (frameFootprint h a) \<Longrightarrow> deref h2 b = deref h b"
  shows "viewFrame h2 a = viewFrame h a"
    and "frameFootprint h2 a = frameFootprint h a"
proof -
  have a: "deref h2 a = deref h a"
    using assms [of a] by (simp add: frameFootprint_def split: option.splits HeapObject.splits)
  have f: "\<And>l o' r. deref h a = Some (FrameObject l o' r) \<Longrightarrow>
      deref h2 l = deref h l \<and> deref h2 o' = deref h o' \<and> deref h2 r = deref h r"
    using assms by (simp add: frameFootprint_def)
  show "viewFrame h2 a = viewFrame h a"
    using a f by (simp add: viewFrame_def split: option.splits HeapObject.splits)
  show "frameFootprint h2 a = frameFootprint h a"
    using a by (simp add: frameFootprint_def)
qed

lemma instances_cong:
  assumes "\<And>n a b. (n, a) \<in> set tbl \<Longrightarrow> b \<in> set (instanceFootprint h a) \<Longrightarrow> deref h2 b = deref h b"
  shows "viewInstances h2 tbl = viewInstances h tbl"
    and "concat (map (\<lambda>(n, a). instanceFootprint h2 a) tbl)
       = concat (map (\<lambda>(n, a). instanceFootprint h a) tbl)"
proof -
  have each: "viewInstance h2 a = viewInstance h a \<and> instanceFootprint h2 a = instanceFootprint h a"
    if "(n, a) \<in> set tbl" for n a
    using instance_cong [of h a h2] assms [OF that] by simp
  have "map (\<lambda>(n, a). map_option (Pair n) (viewInstance h2 a)) tbl
      = map (\<lambda>(n, a). map_option (Pair n) (viewInstance h a)) tbl"
    by (rule map_cong [OF refl]) (auto simp: each)
  then show "viewInstances h2 tbl = viewInstances h tbl"
    by (simp only: viewInstances_def)
  have "map (\<lambda>(n, a). instanceFootprint h2 a) tbl = map (\<lambda>(n, a). instanceFootprint h a) tbl"
    by (rule map_cong [OF refl]) (auto simp: each)
  then show "concat (map (\<lambda>(n, a). instanceFootprint h2 a) tbl)
       = concat (map (\<lambda>(n, a). instanceFootprint h a) tbl)"
    by (simp only:)
qed

lemma frames_cong:
  assumes "\<And>a b. a \<in> set fs \<Longrightarrow> b \<in> set (frameFootprint h a) \<Longrightarrow> deref h2 b = deref h b"
  shows "viewFrames h2 fs = viewFrames h fs"
    and "concat (map (frameFootprint h2) fs) = concat (map (frameFootprint h) fs)"
proof -
  have each: "viewFrame h2 a = viewFrame h a \<and> frameFootprint h2 a = frameFootprint h a"
    if "a \<in> set fs" for a
    using frame_cong [of h a h2] assms [OF that] by simp
  have "map (viewFrame h2) fs = map (viewFrame h) fs"
    by (rule map_cong [OF refl]) (simp add: each)
  then show "viewFrames h2 fs = viewFrames h fs"
    by (simp only: viewFrames_def)
  have "map (frameFootprint h2) fs = map (frameFootprint h) fs"
    by (rule map_cong [OF refl]) (simp add: each)
  then show "concat (map (frameFootprint h2) fs) = concat (map (frameFootprint h) fs)"
    by (simp only:)
qed

lemma evaluation_cong:
  assumes "\<And>b. b \<in> set (footprint h e) \<Longrightarrow> deref h2 b = deref h b"
  shows "view h2 e = view h e" and "footprint h2 e = footprint h e"
proof -
  have i: "deref h2 (instancesRef e) = deref h (instancesRef e)"
    using assms by (simp add: footprint_def)
  have s: "deref h2 (frameStackRef e) = deref h (frameStackRef e)"
    using assms by (simp add: footprint_def)
  have ti: "viewInstances h2 tbl = viewInstances h tbl \<and>
      concat (map (\<lambda>(n, a). instanceFootprint h2 a) tbl)
       = concat (map (\<lambda>(n, a). instanceFootprint h a) tbl)"
    if t: "deref h (instancesRef e) = Some (InstanceTable tbl)" for tbl
  proof -
    have "deref h2 b = deref h b" if "(n, a) \<in> set tbl" "b \<in> set (instanceFootprint h a)" for n a b
    proof (rule assms)
      show "b \<in> set (footprint h e)"
        using that t by (force simp: footprint_def)
    qed
    then show ?thesis using instances_cong [of tbl h h2] by blast
  qed
  have tf: "viewFrames h2 fs = viewFrames h fs \<and>
      concat (map (frameFootprint h2) fs) = concat (map (frameFootprint h) fs)"
    if t: "deref h (frameStackRef e) = Some (FrameArray fs)" for fs
  proof -
    have "deref h2 b = deref h b" if "a \<in> set fs" "b \<in> set (frameFootprint h a)" for a b
    proof (rule assms)
      show "b \<in> set (footprint h e)"
        using that t by (force simp: footprint_def)
    qed
    then show ?thesis using frames_cong [of fs h h2] by blast
  qed
  show "view h2 e = view h e"
    using i s ti tf by (simp add: view_def split: option.splits HeapObject.splits)
  show "footprint h2 e = footprint h e"
    using i s ti tf by (simp add: footprint_def split: option.splits HeapObject.splits)
qed

subsection \<open>A readable evaluation reaches objects of the store only\<close>

lemma those_SomeD:
  "those (map f xs) = Some ys \<Longrightarrow> x \<in> set xs \<Longrightarrow> \<exists>y. f x = Some y"
  by (induction xs arbitrary: ys) (auto split: option.splits)

lemma viewInstance_bounds:
  "viewInstance h a = Some obj \<Longrightarrow> b \<in> set (instanceFootprint h a) \<Longrightarrow> b < length h"
  by (auto simp: viewInstance_def instanceFootprint_def dest: deref_in_range
      split: option.splits HeapObject.splits)

lemma viewFrame_bounds:
  "viewFrame h a = Some fr \<Longrightarrow> b \<in> set (frameFootprint h a) \<Longrightarrow> b < length h"
  by (auto simp: viewFrame_def frameFootprint_def dest: deref_in_range
      split: option.splits HeapObject.splits)

lemma viewInstances_bounds:
  assumes "viewInstances h tbl = Some objs" "(n, a) \<in> set tbl" "b \<in> set (instanceFootprint h a)"
  shows "b < length h"
proof -
  obtain y where "map_option (Pair n) (viewInstance h a) = Some y"
    using those_SomeD [OF assms(1) [unfolded viewInstances_def] assms(2)] by auto
  then obtain obj where "viewInstance h a = Some obj" by auto
  then show ?thesis using assms(3) by (rule viewInstance_bounds)
qed

lemma viewFrames_bounds:
  assumes "viewFrames h fs = Some frs" "a \<in> set fs" "b \<in> set (frameFootprint h a)"
  shows "b < length h"
proof -
  obtain fr where "viewFrame h a = Some fr"
    using those_SomeD [OF assms(1) [unfolded viewFrames_def] assms(2)] by auto
  then show ?thesis using assms(3) by (rule viewFrame_bounds)
qed

lemma view_bounds:
  assumes "view h e = Some v" "b \<in> set (footprint h e)"
  shows "b < length h"
proof -
  obtain tbl fs objs frs where
    t: "deref h (instancesRef e) = Some (InstanceTable tbl)" and
    f: "deref h (frameStackRef e) = Some (FrameArray fs)" and
    vi: "viewInstances h tbl = Some objs" and vf: "viewFrames h fs = Some frs"
    using assms(1) by (auto simp: view_def split: option.splits HeapObject.splits)
  from assms(2) t f consider "b = instancesRef e" | "b = frameStackRef e"
    | n a where "(n, a) \<in> set tbl" "b \<in> set (instanceFootprint h a)"
    | a where "a \<in> set fs" "b \<in> set (frameFootprint h a)"
    by (auto simp: footprint_def)
  then show ?thesis
  proof cases
    case 1 then show ?thesis using t deref_in_range by simp
  next
    case 2 then show ?thesis using f deref_in_range by simp
  next
    case 3 then show ?thesis using viewInstances_bounds [OF vi] by blast
  next
    case 4 then show ?thesis using viewFrames_bounds [OF vf] by blast
  qed
qed

subsection \<open>The clone is made of new objects\<close>

lemma viewInstance_append:
  assumes "viewInstance h a = Some obj"
  shows "viewInstance (h @ xs) a = Some obj"
    and "instanceFootprint (h @ xs) a = instanceFootprint h a"
proof -
  have "deref (h @ xs) b = deref h b" if "b \<in> set (instanceFootprint h a)" for b
    using viewInstance_bounds [OF assms that] by (rule deref_append)
  then show "viewInstance (h @ xs) a = Some obj"
    and "instanceFootprint (h @ xs) a = instanceFootprint h a"
    using instance_cong [of h a "h @ xs"] assms by simp_all
qed

lemma viewFrame_append:
  assumes "viewFrame h a = Some fr"
  shows "viewFrame (h @ xs) a = Some fr"
    and "frameFootprint (h @ xs) a = frameFootprint h a"
proof -
  have "deref (h @ xs) b = deref h b" if "b \<in> set (frameFootprint h a)" for b
    using viewFrame_bounds [OF assms that] by (rule deref_append)
  then show "viewFrame (h @ xs) a = Some fr"
    and "frameFootprint (h @ xs) a = frameFootprint h a"
    using frame_cong [of h a "h @ xs"] assms by simp_all
qed

lemma viewInstances_append:
  assumes "viewInstances h tbl = Some objs"
  shows "viewInstances (h @ xs) tbl = Some objs"
    and "concat (map (\<lambda>(n, a). instanceFootprint (h @ xs) a) tbl)
       = concat (map (\<lambda>(n, a). instanceFootprint h a) tbl)"
proof -
  have "deref (h @ xs) b = deref h b"
    if "(n, a) \<in> set tbl" "b \<in> set (instanceFootprint h a)" for n a b
    using viewInstances_bounds [OF assms that] by (rule deref_append)
  then show "viewInstances (h @ xs) tbl = Some objs"
    and "concat (map (\<lambda>(n, a). instanceFootprint (h @ xs) a) tbl)
       = concat (map (\<lambda>(n, a). instanceFootprint h a) tbl)"
    using instances_cong [of tbl h "h @ xs"] assms by simp_all
qed

lemma viewFrames_append:
  assumes "viewFrames h fs = Some frs"
  shows "viewFrames (h @ xs) fs = Some frs"
    and "concat (map (frameFootprint (h @ xs)) fs) = concat (map (frameFootprint h) fs)"
proof -
  have "deref (h @ xs) b = deref h b"
    if "a \<in> set fs" "b \<in> set (frameFootprint h a)" for a b
    using viewFrames_bounds [OF assms that] by (rule deref_append)
  then show "viewFrames (h @ xs) fs = Some frs"
    and "concat (map (frameFootprint (h @ xs)) fs) = concat (map (frameFootprint h) fs)"
    using frames_cong [of fs h "h @ xs"] assms by simp_all
qed

lemma copyInstance_clone:
  assumes "viewInstance h a = Some obj"
  shows "\<exists>xs a'. copyInstance h a = Some (h @ xs, a') \<and> viewInstance (h @ xs) a' = Some obj \<and>
           (\<forall>b \<in> set (instanceFootprint (h @ xs) a'). length h \<le> b \<and> b < length (h @ xs))"
proof -
  obtain i m f v d where a: "deref h a = Some (InstanceObject i m f v)"
    and f: "deref h f = Some (IdDictionary d)"
    and obj: "obj = \<lparr>id' = i, module = m, fields' = d, innerValue = v\<rparr>"
    using assms by (auto simp: viewInstance_def split: option.splits HeapObject.splits)
  let ?xs = "[IdDictionary d, InstanceObject i m (length h) v]"
  have "copyInstance h a = Some (h @ ?xs, Suc (length h))"
    using a f by (simp add: copyInstance_def alloc_def)
  moreover have "viewInstance (h @ ?xs) (Suc (length h)) = Some obj"
    by (simp add: viewInstance_def deref_def nth_append obj)
  moreover have "instanceFootprint (h @ ?xs) (Suc (length h)) = [Suc (length h), length h]"
    by (simp add: instanceFootprint_def deref_def nth_append)
  ultimately show ?thesis by (intro exI [of _ ?xs] exI [of _ "Suc (length h)"]) simp
qed

lemma copyFrame_clone:
  assumes "viewFrame h a = Some fr"
  shows "\<exists>xs a'. copyFrame h a = Some (h @ xs, a') \<and> viewFrame (h @ xs) a' = Some fr \<and>
           (\<forall>b \<in> set (frameFootprint (h @ xs) a'). length h \<le> b \<and> b < length (h @ xs))"
proof -
  obtain l o' r ls os rs where a: "deref h a = Some (FrameObject l o' r)"
    and l: "deref h l = Some (IdDictionary ls)"
    and o: "deref h o' = Some (IdArray os)"
    and r: "deref h r = Some (IdArray rs)"
    and fr: "fr = \<lparr>locals = ls, operandStack = os, resume = rs\<rparr>"
    using assms by (auto simp: viewFrame_def split: option.splits HeapObject.splits)
  let ?n = "length h"
  let ?xs = "[IdDictionary ls, IdArray os, IdArray rs, FrameObject ?n (Suc ?n) (Suc (Suc ?n))]"
  have "copyFrame h a = Some (h @ ?xs, Suc (Suc (Suc ?n)))"
    using a l o r by (simp add: copyFrame_def alloc_def)
  moreover have "viewFrame (h @ ?xs) (Suc (Suc (Suc ?n))) = Some fr"
    by (simp add: viewFrame_def deref_def nth_append fr)
  moreover have "frameFootprint (h @ ?xs) (Suc (Suc (Suc ?n)))
      = [Suc (Suc (Suc ?n)), ?n, Suc ?n, Suc (Suc ?n)]"
    by (simp add: frameFootprint_def deref_def nth_append)
  ultimately show ?thesis by (intro exI [of _ ?xs] exI [of _ "Suc (Suc (Suc ?n))"]) simp
qed

lemma viewInstances_Cons:
  "viewInstances h ((n, a) # rest) = Some objs \<longleftrightarrow>
     (\<exists>obj objs'. viewInstance h a = Some obj \<and> viewInstances h rest = Some objs' \<and>
        objs = (n, obj) # objs')"
  by (auto simp: viewInstances_def split: option.splits)

lemma viewFrames_Cons:
  "viewFrames h (a # rest) = Some frs \<longleftrightarrow>
     (\<exists>fr frs'. viewFrame h a = Some fr \<and> viewFrames h rest = Some frs' \<and> frs = fr # frs')"
  by (auto simp: viewFrames_def split: option.splits)

lemma copyInstances_clone:
  "viewInstances h tbl = Some objs \<Longrightarrow>
   \<exists>xs tbl'. copyInstances h tbl = Some (h @ xs, tbl') \<and>
     viewInstances (h @ xs) tbl' = Some objs \<and>
     (\<forall>b \<in> set (concat (map (\<lambda>(n, a). instanceFootprint (h @ xs) a) tbl')).
        length h \<le> b \<and> b < length (h @ xs))"
proof (induction tbl arbitrary: h objs)
  case Nil
  then show ?case by (intro exI [of _ "[]"]) (simp add: viewInstances_def)
next
  case (Cons p rest)
  obtain n a where p: "p = (n, a)" by (cases p)
  from Cons.prems p obtain obj objs' where
    va: "viewInstance h a = Some obj" and vr: "viewInstances h rest = Some objs'"
    and objs: "objs = (n, obj) # objs'"
    by (auto simp: viewInstances_Cons)
  from copyInstance_clone [OF va] obtain xs1 a1 where
    c1: "copyInstance h a = Some (h @ xs1, a1)" and v1: "viewInstance (h @ xs1) a1 = Some obj"
    and b1: "\<forall>b \<in> set (instanceFootprint (h @ xs1) a1). length h \<le> b \<and> b < length (h @ xs1)"
    by blast
  from Cons.IH [OF viewInstances_append(1) [OF vr, of xs1]] obtain xs2 tbl2 where
    c2: "copyInstances (h @ xs1) rest = Some ((h @ xs1) @ xs2, tbl2)"
    and v2: "viewInstances ((h @ xs1) @ xs2) tbl2 = Some objs'"
    and b2: "\<forall>b \<in> set (concat (map (\<lambda>(n, a). instanceFootprint ((h @ xs1) @ xs2) a) tbl2)).
        length (h @ xs1) \<le> b \<and> b < length ((h @ xs1) @ xs2)"
    by blast
  have c: "copyInstances h (p # rest) = Some (h @ (xs1 @ xs2), (n, a1) # tbl2)"
    using c1 c2 p by simp
  have v: "viewInstances (h @ (xs1 @ xs2)) ((n, a1) # tbl2) = Some objs"
    using viewInstance_append(1) [OF v1, of xs2] v2 objs by (simp add: viewInstances_Cons)
  have f1: "instanceFootprint (h @ (xs1 @ xs2)) a1 = instanceFootprint (h @ xs1) a1"
    using viewInstance_append(2) [OF v1, of xs2] by simp
  have b: "\<forall>b \<in> set (concat (map (\<lambda>(n, a). instanceFootprint (h @ (xs1 @ xs2)) a) ((n, a1) # tbl2))).
      length h \<le> b \<and> b < length (h @ (xs1 @ xs2))"
  proof
    fix b
    assume "b \<in> set (concat (map (\<lambda>(n, a). instanceFootprint (h @ (xs1 @ xs2)) a) ((n, a1) # tbl2)))"
    then consider "b \<in> set (instanceFootprint (h @ xs1) a1)"
      | "b \<in> set (concat (map (\<lambda>(n, a). instanceFootprint ((h @ xs1) @ xs2) a) tbl2))"
      using f1 by auto
    then show "length h \<le> b \<and> b < length (h @ (xs1 @ xs2))"
    proof cases
      case 1 then show ?thesis using b1 by auto
    next
      case 2 then show ?thesis using b2 [rule_format, OF 2] by simp
    qed
  qed
  show ?case using c v b by blast
qed

lemma copyFrames_clone:
  "viewFrames h fs = Some frs \<Longrightarrow>
   \<exists>xs fs'. copyFrames h fs = Some (h @ xs, fs') \<and>
     viewFrames (h @ xs) fs' = Some frs \<and>
     (\<forall>b \<in> set (concat (map (frameFootprint (h @ xs)) fs')).
        length h \<le> b \<and> b < length (h @ xs))"
proof (induction fs arbitrary: h frs)
  case Nil
  then show ?case by (intro exI [of _ "[]"]) (simp add: viewFrames_def)
next
  case (Cons a rest)
  from Cons.prems obtain fr frs' where
    va: "viewFrame h a = Some fr" and vr: "viewFrames h rest = Some frs'"
    and frs: "frs = fr # frs'"
    by (auto simp: viewFrames_Cons)
  from copyFrame_clone [OF va] obtain xs1 a1 where
    c1: "copyFrame h a = Some (h @ xs1, a1)" and v1: "viewFrame (h @ xs1) a1 = Some fr"
    and b1: "\<forall>b \<in> set (frameFootprint (h @ xs1) a1). length h \<le> b \<and> b < length (h @ xs1)"
    by blast
  from Cons.IH [OF viewFrames_append(1) [OF vr, of xs1]] obtain xs2 fs2 where
    c2: "copyFrames (h @ xs1) rest = Some ((h @ xs1) @ xs2, fs2)"
    and v2: "viewFrames ((h @ xs1) @ xs2) fs2 = Some frs'"
    and b2: "\<forall>b \<in> set (concat (map (frameFootprint ((h @ xs1) @ xs2)) fs2)).
        length (h @ xs1) \<le> b \<and> b < length ((h @ xs1) @ xs2)"
    by blast
  have c: "copyFrames h (a # rest) = Some (h @ (xs1 @ xs2), a1 # fs2)"
    using c1 c2 by simp
  have v: "viewFrames (h @ (xs1 @ xs2)) (a1 # fs2) = Some frs"
    using viewFrame_append(1) [OF v1, of xs2] v2 frs by (simp add: viewFrames_Cons)
  have f1: "frameFootprint (h @ (xs1 @ xs2)) a1 = frameFootprint (h @ xs1) a1"
    using viewFrame_append(2) [OF v1, of xs2] by simp
  have b: "\<forall>b \<in> set (concat (map (frameFootprint (h @ (xs1 @ xs2))) (a1 # fs2))).
      length h \<le> b \<and> b < length (h @ (xs1 @ xs2))"
  proof
    fix b
    assume "b \<in> set (concat (map (frameFootprint (h @ (xs1 @ xs2))) (a1 # fs2)))"
    then consider "b \<in> set (frameFootprint (h @ xs1) a1)"
      | "b \<in> set (concat (map (frameFootprint ((h @ xs1) @ xs2)) fs2))"
      using f1 by auto
    then show "length h \<le> b \<and> b < length (h @ (xs1 @ xs2))"
    proof cases
      case 1 then show ?thesis using b1 by auto
    next
      case 2 then show ?thesis using b2 [rule_format, OF 2] by simp
    qed
  qed
  show ?case using c v b by blast
qed

lemma copy_clone:
  assumes "view h e = Some v"
  shows "\<exists>xs e2. copy h e = Some (h @ xs, e2) \<and> view (h @ xs) e2 = Some v \<and>
           (\<forall>b \<in> set (footprint (h @ xs) e2). length h \<le> b \<and> b < length (h @ xs))"
proof -
  obtain tbl fs objs frs where
    t: "deref h (instancesRef e) = Some (InstanceTable tbl)" and
    f: "deref h (frameStackRef e) = Some (FrameArray fs)" and
    vi: "viewInstances h tbl = Some objs" and vf: "viewFrames h fs = Some frs" and
    v: "v = \<lparr>instances = objs, frameStack = frs\<rparr>"
    using assms by (auto simp: view_def split: option.splits HeapObject.splits)
  from copyInstances_clone [OF vi] obtain xs1 tbl' where
    c1: "copyInstances h tbl = Some (h @ xs1, tbl')"
    and v1: "viewInstances (h @ xs1) tbl' = Some objs"
    and b1: "\<forall>b \<in> set (concat (map (\<lambda>(n, a). instanceFootprint (h @ xs1) a) tbl')).
        length h \<le> b \<and> b < length (h @ xs1)"
    by blast
  let ?h2 = "h @ (xs1 @ [InstanceTable tbl'])"
  have vf2: "viewFrames ?h2 fs = Some frs"
    using vf by (rule viewFrames_append(1))
  from copyFrames_clone [OF vf2] obtain xs3 fs' where
    c3: "copyFrames ?h2 fs = Some (?h2 @ xs3, fs')"
    and v3: "viewFrames (?h2 @ xs3) fs' = Some frs"
    and b3: "\<forall>b \<in> set (concat (map (frameFootprint (?h2 @ xs3)) fs')).
        length ?h2 \<le> b \<and> b < length (?h2 @ xs3)"
    by blast
  let ?xs = "xs1 @ [InstanceTable tbl'] @ xs3 @ [FrameArray fs']"
  let ?e2 = "\<lparr>instancesRef = length (h @ xs1), frameStackRef = length (?h2 @ xs3)\<rparr>"
  have c: "copy h e = Some (h @ ?xs, ?e2)"
    using t f c1 c3 by (simp add: copy_def alloc_def)
  have dt: "deref (h @ ?xs) (length (h @ xs1)) = Some (InstanceTable tbl')"
    by (simp add: deref_def nth_append)
  have df: "deref (h @ ?xs) (length (?h2 @ xs3)) = Some (FrameArray fs')"
    by (simp add: deref_def nth_append)
  have vi4: "viewInstances (h @ ?xs) tbl' = Some objs"
    using viewInstances_append(1) [OF v1, of "[InstanceTable tbl'] @ xs3 @ [FrameArray fs']"]
    by simp
  have fi4: "concat (map (\<lambda>(n, a). instanceFootprint (h @ ?xs) a) tbl')
      = concat (map (\<lambda>(n, a). instanceFootprint (h @ xs1) a) tbl')"
    using viewInstances_append(2) [OF v1, of "[InstanceTable tbl'] @ xs3 @ [FrameArray fs']"]
    by simp
  have vf4: "viewFrames (h @ ?xs) fs' = Some frs"
    using viewFrames_append(1) [OF v3, of "[FrameArray fs']"] by simp
  have ff4: "concat (map (frameFootprint (h @ ?xs)) fs')
      = concat (map (frameFootprint (?h2 @ xs3)) fs')"
    using viewFrames_append(2) [OF v3, of "[FrameArray fs']"] by simp
  have view4: "view (h @ ?xs) ?e2 = Some v"
    using dt df vi4 vf4 v by (simp add: view_def)
  have fp: "footprint (h @ ?xs) ?e2 =
      length (h @ xs1) # length (?h2 @ xs3) #
      concat (map (\<lambda>(n, a). instanceFootprint (h @ xs1) a) tbl') @
      concat (map (frameFootprint (?h2 @ xs3)) fs')"
    using dt df fi4 ff4 by (simp add: footprint_def)
  have "\<forall>b \<in> set (footprint (h @ ?xs) ?e2). length h \<le> b \<and> b < length (h @ ?xs)"
  proof
    fix b
    assume "b \<in> set (footprint (h @ ?xs) ?e2)"
    then consider "b = length (h @ xs1)" | "b = length (?h2 @ xs3)"
      | "b \<in> set (concat (map (\<lambda>(n, a). instanceFootprint (h @ xs1) a) tbl'))"
      | "b \<in> set (concat (map (frameFootprint (?h2 @ xs3)) fs'))"
      unfolding fp by auto
    then show "length h \<le> b \<and> b < length (h @ ?xs)"
    proof cases
      case 1 then show ?thesis by simp
    next
      case 2 then show ?thesis by simp
    next
      case 3 then show ?thesis using b1 [rule_format, OF 3] by simp
    next
      case 4 then show ?thesis using b3 [rule_format, OF 4] by simp
    qed
  qed
  then show ?thesis using c view4 by blast
qed

subsection \<open>A mutation writes only what its reference reaches\<close>

lemma frameAt_footprint:
  assumes "frameAt h e k = Some (fa, l, o', r)"
  shows "deref h fa = Some (FrameObject l o' r)"
    and "fa \<in> set (footprint h e)" and "l \<in> set (footprint h e)"
    and "o' \<in> set (footprint h e)" and "r \<in> set (footprint h e)"
proof -
  obtain fs where f: "deref h (frameStackRef e) = Some (FrameArray fs)"
    and k: "k < length fs" and fa: "fa = fs ! k"
    and d: "deref h (fs ! k) = Some (FrameObject l o' r)"
    using assms by (auto simp: frameAt_def split: option.splits HeapObject.splits if_splits)
  show "deref h fa = Some (FrameObject l o' r)" using d fa by simp
  have m: "fa \<in> set fs" using k fa by simp
  have fp: "frameFootprint h fa = [fa, l, o', r]" using d fa by (simp add: frameFootprint_def)
  have "set (frameFootprint h fa) \<subseteq> set (footprint h e)"
    using f m by (auto simp: footprint_def)
  then show "fa \<in> set (footprint h e)" and "l \<in> set (footprint h e)"
    and "o' \<in> set (footprint h e)" and "r \<in> set (footprint h e)"
    unfolding fp by simp_all
qed

lemma fieldsAt_footprint:
  assumes "fieldsAt h e i = Some f"
  shows "f \<in> set (footprint h e)"
proof -
  obtain tbl a i' m v where t: "deref h (instancesRef e) = Some (InstanceTable tbl)"
    and a: "map_of tbl i = Some a" and d: "deref h a = Some (InstanceObject i' m f v)"
    using assms by (auto simp: fieldsAt_def split: option.splits HeapObject.splits)
  have m: "(i, a) \<in> set tbl" using a by (rule map_of_SomeD)
  have fp: "instanceFootprint h a = [a, f]" using d by (simp add: instanceFootprint_def)
  have "set (instanceFootprint h a) \<subseteq> set (footprint h e)"
    using t m by (auto simp: footprint_def)
  then show ?thesis unfolding fp by simp
qed

lemma mutate_cases:
  obtains (unchanged) "mutate h e m = h"
  | (array) b ids where "b \<in> set (footprint h e)" "mutate h e m = writeArray h b ids"
  | (dictionary) b entries where "b \<in> set (footprint h e)"
      "mutate h e m = writeDictionary h b entries"
  | (assign) fa l o' r kinds where "deref h fa = Some (FrameObject l o' r)"
      "fa \<in> set (footprint h e)"
      "mutate h e m = (h @ [IdArray kinds])[fa := FrameObject l o' (length h)]"
proof (cases m)
  case (WriteOperandStack k ids)
  show ?thesis
  proof (cases "frameAt h e k")
    case None
    then show ?thesis using WriteOperandStack unchanged by simp
  next
    case (Some t)
    obtain fa l o' r where t: "t = (fa, l, o', r)" by (cases t)
    show ?thesis
      using array [of o' ids] frameAt_footprint(4) [OF Some [unfolded t]] WriteOperandStack Some t
      by simp
  qed
next
  case (WriteLocals k entries)
  show ?thesis
  proof (cases "frameAt h e k")
    case None
    then show ?thesis using WriteLocals unchanged by simp
  next
    case (Some t)
    obtain fa l o' r where t: "t = (fa, l, o', r)" by (cases t)
    show ?thesis
      using dictionary [of l entries] frameAt_footprint(3) [OF Some [unfolded t]] WriteLocals Some t
      by simp
  qed
next
  case (WriteResume k kinds)
  show ?thesis
  proof (cases "frameAt h e k")
    case None
    then show ?thesis using WriteResume unchanged by simp
  next
    case (Some t)
    obtain fa l o' r where t: "t = (fa, l, o', r)" by (cases t)
    show ?thesis
      using array [of r kinds] frameAt_footprint(5) [OF Some [unfolded t]] WriteResume Some t
      by simp
  qed
next
  case (AssignResume k kinds)
  show ?thesis
  proof (cases "frameAt h e k")
    case None
    then show ?thesis using AssignResume unchanged by simp
  next
    case (Some t)
    obtain fa l o' r where t: "t = (fa, l, o', r)" by (cases t)
    show ?thesis
      using assign [of fa l o' r kinds] frameAt_footprint(1,2) [OF Some [unfolded t]]
        AssignResume Some t
      by (simp add: alloc_def)
  qed
next
  case (WriteFields i entries)
  show ?thesis
  proof (cases "fieldsAt h e i")
    case None
    then show ?thesis using WriteFields unchanged by simp
  next
    case (Some f)
    show ?thesis
      using dictionary [of f entries] fieldsAt_footprint [OF Some] WriteFields Some
      by simp
  qed
qed

lemma writeArray_other: "a \<noteq> b \<Longrightarrow> deref (writeArray h b ids) a = deref h a"
  by (simp add: writeArray_def deref_update split: option.splits HeapObject.splits)

lemma writeDictionary_other: "a \<noteq> b \<Longrightarrow> deref (writeDictionary h b entries) a = deref h a"
  by (simp add: writeDictionary_def deref_update split: option.splits HeapObject.splits)

lemma length_writeArray: "length (writeArray h b ids) = length h"
  by (simp add: writeArray_def split: option.splits HeapObject.splits)

lemma length_writeDictionary: "length (writeDictionary h b entries) = length h"
  by (simp add: writeDictionary_def split: option.splits HeapObject.splits)

lemma mutate_other:
  assumes "a \<notin> set (footprint h e)" "a < length h"
  shows "deref (mutate h e m) a = deref h a"
proof (cases rule: mutate_cases [of h e m])
  case unchanged
  then show ?thesis by simp
next
  case (array b ids)
  then show ?thesis using assms(1) writeArray_other [of a b] by auto
next
  case (dictionary b entries)
  then show ?thesis using assms(1) writeDictionary_other [of a b] by auto
next
  case (assign fa l o' r kinds)
  then have "a \<noteq> fa" using assms(1) by auto
  then show ?thesis using assign(3) assms(2) by (simp add: deref_update deref_append)
qed

lemma length_mutate: "length h \<le> length (mutate h e m)"
  by (cases rule: mutate_cases [of h e m]) (simp_all add: length_writeArray length_writeDictionary)

lemma writeArray_shape:
  "instanceFootprint (writeArray h b ids) a = instanceFootprint h a"
  "frameFootprint (writeArray h b ids) a = frameFootprint h a"
  by (auto simp: writeArray_def instanceFootprint_def frameFootprint_def deref_update
      split: option.splits HeapObject.splits)

lemma writeDictionary_shape:
  "instanceFootprint (writeDictionary h b entries) a = instanceFootprint h a"
  "frameFootprint (writeDictionary h b entries) a = frameFootprint h a"
  by (auto simp: writeDictionary_def instanceFootprint_def frameFootprint_def deref_update
      split: option.splits HeapObject.splits)

lemma footprint_writeArray: "footprint (writeArray h b ids) e = footprint h e"
  unfolding footprint_def writeArray_shape
  by (auto simp: writeArray_def deref_update split: option.splits HeapObject.splits)

lemma footprint_writeDictionary: "footprint (writeDictionary h b entries) e = footprint h e"
  unfolding footprint_def writeDictionary_shape
  by (auto simp: writeDictionary_def deref_update split: option.splits HeapObject.splits)

subsection \<open>Separated references stay separated\<close>

lemma deref_assign:
  assumes "deref h fa = Some (FrameObject l o' r)"
  shows "deref ((h @ [x])[fa := FrameObject l o' (length h)]) a =
    (if a = fa then Some (FrameObject l o' (length h))
     else if a = length h then Some x else deref h a)"
  using deref_in_range [OF assms] by (simp add: deref_def nth_append nth_list_update)

lemma in_footprint:
  "x \<in> set (footprint h e) \<longleftrightarrow>
     x = instancesRef e \<or> x = frameStackRef e \<or>
     (\<exists>tbl n a. deref h (instancesRef e) = Some (InstanceTable tbl) \<and> (n, a) \<in> set tbl \<and>
        x \<in> set (instanceFootprint h a)) \<or>
     (\<exists>fs a. deref h (frameStackRef e) = Some (FrameArray fs) \<and> a \<in> set fs \<and>
        x \<in> set (frameFootprint h a))"
  by (cases "deref h (instancesRef e)"; cases "deref h (frameStackRef e)")
    (auto simp: footprint_def split: HeapObject.splits)

lemma footprint_assign:
  assumes "deref h fa = Some (FrameObject l o' r)"
  shows "set (footprint ((h @ [IdArray kinds])[fa := FrameObject l o' (length h)]) e)
    \<subseteq> insert (length h) (set (footprint h e))"
proof -
  let ?h2 = "(h @ [IdArray kinds])[fa := FrameObject l o' (length h)]"
  note d = deref_assign [OF assms, of "IdArray kinds"]
  have n: "deref h (length h) = None" by (simp add: deref_def)
  have i: "instanceFootprint ?h2 a = instanceFootprint h a" for a
    using assms n by (simp add: instanceFootprint_def d)
  have f: "set (frameFootprint ?h2 a) \<subseteq> insert (length h) (set (frameFootprint h a))" for a
    using assms n by (auto simp: frameFootprint_def d split: option.splits HeapObject.splits)
  have t: "deref ?h2 a = Some (InstanceTable tbl) \<longleftrightarrow> deref h a = Some (InstanceTable tbl)" for a tbl
    using assms n by (auto simp: d)
  have s: "deref ?h2 a = Some (FrameArray fs) \<longleftrightarrow> deref h a = Some (FrameArray fs)" for a fs
    using assms n by (auto simp: d)
  show ?thesis
  proof
    fix x
    assume "x \<in> set (footprint ?h2 e)"
    then consider "x = instancesRef e" | "x = frameStackRef e"
      | tbl n' a where "deref ?h2 (instancesRef e) = Some (InstanceTable tbl)"
          "(n', a) \<in> set tbl" "x \<in> set (instanceFootprint ?h2 a)"
      | fs a where "deref ?h2 (frameStackRef e) = Some (FrameArray fs)"
          "a \<in> set fs" "x \<in> set (frameFootprint ?h2 a)"
      unfolding in_footprint by blast
    then show "x \<in> insert (length h) (set (footprint h e))"
    proof cases
      case 1 then show ?thesis by (simp add: footprint_def)
    next
      case 2 then show ?thesis by (simp add: footprint_def)
    next
      case 3
      then have "deref h (instancesRef e) = Some (InstanceTable tbl)"
        and "x \<in> set (instanceFootprint h a)"
        using t i by simp_all
      then show ?thesis using 3(2) unfolding insert_iff in_footprint by blast
    next
      case 4
      then have "deref h (frameStackRef e) = Some (FrameArray fs)"
        and "x = length h \<or> x \<in> set (frameFootprint h a)"
        using s f [of a] by auto
      then show ?thesis using 4(2) unfolding insert_iff in_footprint by blast
    qed
  qed
qed

lemma footprint_mutate:
  assumes "x \<in> set (footprint (mutate h e m) e)"
  shows "x \<in> set (footprint h e) \<or> (x = length h \<and> length h < length (mutate h e m))"
proof (cases rule: mutate_cases [of h e m])
  case unchanged
  then show ?thesis using assms by simp
next
  case (array b ids)
  then show ?thesis using assms by (simp add: footprint_writeArray)
next
  case (dictionary b entries)
  then show ?thesis using assms by (simp add: footprint_writeDictionary)
next
  case (assign fa l o' r kinds)
  then show ?thesis using assms footprint_assign [OF assign(1), of kinds e] by auto
qed

lemma separated_iff:
  "separated h a b \<longleftrightarrow>
     (\<forall>x \<in> set (footprint h a). x < length h \<and> x \<notin> set (footprint h b)) \<and>
     (\<forall>x \<in> set (footprint h b). x < length h)"
  by (simp add: separated_def list_all_iff)

lemma separated_sym: "separated h a b \<Longrightarrow> separated h b a"
  by (auto simp: separated_iff)

lemma mutate_separated:
  assumes "separated h a b"
  shows "separated (mutate h a m) a b" and "view (mutate h a m) b = view h b"
proof -
  have same: "deref (mutate h a m) x = deref h x" if "x \<in> set (footprint h b)" for x
    using assms that by (intro mutate_other) (auto simp: separated_iff)
  show "view (mutate h a m) b = view h b"
    using same by (rule evaluation_cong(1))
  have fb: "footprint (mutate h a m) b = footprint h b"
    using same by (rule evaluation_cong(2))
  have len: "length h \<le> length (mutate h a m)" by (rule length_mutate)
  have "x < length (mutate h a m) \<and> x \<notin> set (footprint h b)"
    if "x \<in> set (footprint (mutate h a m) a)" for x
    using footprint_mutate [OF that] assms len by (auto simp: separated_iff)
  moreover have "x < length (mutate h a m)" if "x \<in> set (footprint h b)" for x
    using that assms len by (auto simp: separated_iff)
  ultimately show "separated (mutate h a m) a b"
    unfolding separated_iff fb by blast
qed

lemma mutateAll_separated:
  "separated h a b \<Longrightarrow> fst ` set ms \<subseteq> {a, b} \<Longrightarrow> separated (mutateAll h ms) a b"
proof (induction ms arbitrary: h)
  case Nil
  then show ?case by simp
next
  case (Cons p ms)
  obtain r m where p: "p = (r, m)" by (cases p)
  have "r = a \<or> r = b" using Cons.prems(2) p by simp
  then have "separated (mutate h r m) a b"
    using mutate_separated(1) [OF Cons.prems(1), of m]
      mutate_separated(1) [OF separated_sym [OF Cons.prems(1)], of m] separated_sym
    by blast
  then have "separated (mutateAll (mutate h r m) ms) a b"
    using Cons.prems(2) by (intro Cons.IH) simp_all
  then show ?case using p by simp
qed

lemma mutateAll_through:
  "separated h a b \<Longrightarrow> view (mutateAll h (map (Pair a) ms)) b = view h b"
proof (induction ms arbitrary: h)
  case Nil
  then show ?case by simp
next
  case (Cons m ms)
  have "view (mutateAll (mutate h a m) (map (Pair a) ms)) b = view (mutate h a m) b"
    using mutate_separated(1) [OF Cons.prems] by (rule Cons.IH)
  then show ?case using mutate_separated(2) [OF Cons.prems, of m] by simp
qed

lemma copy_separated:
  assumes "view h e = Some v"
  shows "\<exists>h' e2. copy h e = Some (h', e2) \<and> view h' e = Some v \<and> view h' e2 = Some v \<and>
           separated h' e e2"
proof -
  from copy_clone [OF assms] obtain xs e2 where
    c: "copy h e = Some (h @ xs, e2)" and v2: "view (h @ xs) e2 = Some v"
    and b2: "\<forall>b \<in> set (footprint (h @ xs) e2). length h \<le> b \<and> b < length (h @ xs)"
    by blast
  have same: "deref (h @ xs) b = deref h b" if "b \<in> set (footprint h e)" for b
    using view_bounds [OF assms that] by (rule deref_append)
  have v1: "view (h @ xs) e = Some v"
    using evaluation_cong(1) [of h e "h @ xs"] same assms by simp
  have f1: "footprint (h @ xs) e = footprint h e"
    using same by (rule evaluation_cong(2))
  have "separated (h @ xs) e e2"
    unfolding separated_iff f1 using view_bounds [OF assms] b2 by fastforce
  then show ?thesis using c v1 v2 by blast
qed

text \<open>
  Claim C9. The clone made by \<^verbatim>\<open>copy\<close> shows the same instances and frames as the
  original, and the two are isolated from then on: after any history of mutations made
  through the original or through the clone, a further mutation of a frame's operand stack,
  locals or resume set or of an instance's fields made through one of them does not change
  anything that the other one shows. In particular the original still shows its state at the
  time of the copy after any number of mutations through the clone, and the other way round.
\<close>

theorem copy_isolates_clone:
  assumes "view heap this = Some v"
  shows "\<exists>heap' clone. copy heap this = Some (heap', clone) \<and>
           view heap' this = Some v \<and> view heap' clone = Some v \<and>
           (\<forall>ms m. fst ` set ms \<subseteq> {this, clone} \<longrightarrow>
              view (mutate (mutateAll heap' ms) clone m) this = view (mutateAll heap' ms) this \<and>
              view (mutate (mutateAll heap' ms) this m) clone = view (mutateAll heap' ms) clone) \<and>
           (\<forall>ms. view (mutateAll heap' (map (Pair clone) ms)) this = Some v \<and>
              view (mutateAll heap' (map (Pair this) ms)) clone = Some v)"
proof -
  from copy_separated [OF assms] obtain heap' clone where
    c: "copy heap this = Some (heap', clone)" and v1: "view heap' this = Some v"
    and v2: "view heap' clone = Some v" and s: "separated heap' this clone"
    by blast
  have step: "view (mutate (mutateAll heap' ms) clone m) this = view (mutateAll heap' ms) this \<and>
      view (mutate (mutateAll heap' ms) this m) clone = view (mutateAll heap' ms) clone"
    if "fst ` set ms \<subseteq> {this, clone}" for ms m
  proof -
    have "separated (mutateAll heap' ms) this clone"
      using s that by (rule mutateAll_separated)
    then show ?thesis
      using mutate_separated(2) [of "mutateAll heap' ms" this clone m]
        mutate_separated(2) [OF separated_sym, of "mutateAll heap' ms" this clone m]
      by simp
  qed
  have through: "view (mutateAll heap' (map (Pair clone) ms)) this = Some v \<and>
      view (mutateAll heap' (map (Pair this) ms)) clone = Some v" for ms
    using mutateAll_through [OF s, of ms] mutateAll_through [OF separated_sym [OF s], of ms] v1 v2
    by simp
  show ?thesis using c v1 v2 step through by blast
qed

theorem copy_isolates_clone_witness:
  "view exampleHeap exampleEvaluation = Some exampleView \<and>
   (case copy exampleHeap exampleEvaluation of
      None \<Rightarrow> False
    | Some (heap', clone) \<Rightarrow>
        view heap' clone = Some exampleView \<and>
        view (mutate heap' clone (WriteOperandStack 0 [''a'', ''b''])) clone \<noteq> Some exampleView \<and>
        view (mutate heap' clone (WriteOperandStack 0 [''a'', ''b''])) exampleEvaluation
          = Some exampleView \<and>
        view (mutate heap' exampleEvaluation (WriteFields ''x'' [])) exampleEvaluation
          \<noteq> Some exampleView \<and>
        view (mutate heap' exampleEvaluation (WriteFields ''x'' [])) clone = Some exampleView \<and>
        view (mutateAll heap'
                [(clone, AssignResume 0 []), (clone, WriteLocals 0 [(''self'', ''x'')])])
             exampleEvaluation = Some exampleView)"
proof -
  have v: "view exampleHeap exampleEvaluation = Some exampleView"
    by code_simp
  have visible: "case copy exampleHeap exampleEvaluation of
      None \<Rightarrow> False
    | Some (heap', clone) \<Rightarrow>
        view (mutate heap' clone (WriteOperandStack 0 [''a'', ''b''])) clone \<noteq> Some exampleView \<and>
        view (mutate heap' exampleEvaluation (WriteFields ''x'' [])) exampleEvaluation
          \<noteq> Some exampleView"
    by code_simp
  from copy_isolates_clone [OF v] obtain heap' clone where
    copied: "copy exampleHeap exampleEvaluation = Some (heap', clone)"
    and same: "view heap' clone = Some exampleView"
    and step: "\<And>ms m. fst ` set ms \<subseteq> {exampleEvaluation, clone} \<Longrightarrow>
        view (mutate (mutateAll heap' ms) clone m) exampleEvaluation
          = view (mutateAll heap' ms) exampleEvaluation \<and>
        view (mutate (mutateAll heap' ms) exampleEvaluation m) clone
          = view (mutateAll heap' ms) clone"
    and through: "\<And>ms. view (mutateAll heap' (map (Pair clone) ms)) exampleEvaluation
        = Some exampleView"
    and now: "view heap' exampleEvaluation = Some exampleView"
    by blast
  have s1: "view (mutate heap' clone (WriteOperandStack 0 [''a'', ''b''])) exampleEvaluation
      = Some exampleView"
    using step [of "[]" "WriteOperandStack 0 [''a'', ''b'']"] now by simp
  have s2: "view (mutate heap' exampleEvaluation (WriteFields ''x'' [])) clone = Some exampleView"
    using step [of "[]" "WriteFields ''x'' []"] same by simp
  have s3: "view (mutateAll heap'
                [(clone, AssignResume 0 []), (clone, WriteLocals 0 [(''self'', ''x'')])])
             exampleEvaluation = Some exampleView"
    using through [of "[AssignResume 0 [], WriteLocals 0 [(''self'', ''x'')]]"] by simp
  show ?thesis using v visible copied same s1 s2 s3 by simp
qed

end
